theory Spec2Isabelle
  imports Main
begin

section \<open>The expression representation (interface of the symbolic library)\<close>

text \<open>
  The graph code of \<^verbatim>\<open>ffc/ir/uflacs/analysis/graph.py\<close> reads from an expression
  node only its class, the two class flags \<^verbatim>\<open>_ufl_is_terminal_\<close> and
  \<^verbatim>\<open>_ufl_is_terminal_modifier_\<close>, \<^verbatim>\<open>ufl_shape\<close>, \<^verbatim>\<open>ufl_free_indices\<close> and
  \<^verbatim>\<open>ufl_operands\<close>.  A node is either a terminal (no operands, no free indices) or
  an operator; the class is a name, and \<^verbatim>\<open>isinstance\<close> is membership of that name
  in the given tuple of classes.  Dictionary keys are compared with the
  representation's own equality, which is structural: equality of the datatype.
\<close>

datatype expr =
    Terminal string string "nat list"
  | Operator string bool "nat list" "nat list" "expr list"

fun ufl_class :: "expr \<Rightarrow> string" where
  "ufl_class (Terminal c n sh) = c"
| "ufl_class (Operator c tm sh fi ops) = c"

fun ufl_is_terminal :: "expr \<Rightarrow> bool" where
  "ufl_is_terminal (Terminal c n sh) = True"
| "ufl_is_terminal (Operator c tm sh fi ops) = False"

fun ufl_is_terminal_modifier :: "expr \<Rightarrow> bool" where
  "ufl_is_terminal_modifier (Terminal c n sh) = False"
| "ufl_is_terminal_modifier (Operator c tm sh fi ops) = tm"

fun ufl_shape :: "expr \<Rightarrow> nat list" where
  "ufl_shape (Terminal c n sh) = sh"
| "ufl_shape (Operator c tm sh fi ops) = sh"

fun ufl_free_indices :: "expr \<Rightarrow> nat list" where
  "ufl_free_indices (Terminal c n sh) = []"
| "ufl_free_indices (Operator c tm sh fi ops) = fi"

fun ufl_operands :: "expr \<Rightarrow> expr list" where
  "ufl_operands (Terminal c n sh) = []"
| "ufl_operands (Operator c tm sh fi ops) = ops"

definition isinstance :: "expr \<Rightarrow> string list \<Rightarrow> bool" where
  "isinstance e classes = (ufl_class e \<in> set classes)"

text \<open>The number of nodes of an expression tree, used to bound the traversal.\<close>

fun expr_nodes :: "expr \<Rightarrow> nat" where
  "expr_nodes (Terminal c n sh) = 1"
| "expr_nodes (Operator c tm sh fi ops) = Suc (sum_list (map expr_nodes ops))"

section \<open>Python dictionaries and exceptions\<close>

text \<open>
  A \<^verbatim>\<open>dict\<close> keeps its keys in insertion order: an association list with distinct
  keys.  Assigning to a key that is present replaces the value in place, assigning
  to a new key appends.
\<close>

type_synonym ('k, 'v) dict = "('k \<times> 'v) list"

definition dict_in :: "'k \<Rightarrow> ('k, 'v) dict \<Rightarrow> bool" where
  "dict_in k d = (map_of d k \<noteq> None)"

fun dict_set :: "('k, 'v) dict \<Rightarrow> 'k \<Rightarrow> 'v \<Rightarrow> ('k, 'v) dict" where
  "dict_set [] k v = [(k, v)]"
| "dict_set ((k', v') # d) k v =
     (if k' = k then (k, v) # d else (k', v') # dict_set d k v)"

datatype py_error =
    KeyError | IndexError | RuntimeError | AssertionError | AttributeError
  | ExternalError string

section \<open>ExpressionGraph\<close>

text \<open>
  The three dictionaries of the class, and the attribute \<^verbatim>\<open>e2i\<close> that
  \<^verbatim>\<open>build_graph_vertices\<close> attaches to the object.
\<close>

record ('k, 'p) ExpressionGraph =
  nodes :: "('k, 'p) dict"
  out_edges :: "('k, 'k list) dict"
  in_edges :: "('k, 'k list) dict"
  e2i :: "(expr, nat) dict"

definition init :: "('k, 'p) ExpressionGraph" where
  "init = \<lparr>nodes = [], out_edges = [], in_edges = [], e2i = []\<rparr>"


definition add_node :: "('k, 'p) ExpressionGraph \<Rightarrow> 'k \<Rightarrow> 'p \<Rightarrow> ('k, 'p) ExpressionGraph" where
  "add_node G key kwargs =
     G\<lparr>nodes := dict_set (nodes G) key kwargs,
       out_edges := dict_set (out_edges G) key [],
       in_edges := dict_set (in_edges G) key []\<rparr>"

text \<open>
  \<^verbatim>\<open>add_edge\<close> mutates the graph and may raise.  A raise is \<open>Inl\<close> of the
  exception together with the graph as the raise leaves it; \<open>Inr\<close> is the graph
  after a normal return.  The two augmented assignments read the list of their
  key first, which is a \<^verbatim>\<open>KeyError\<close> of its own when the key is missing there.
\<close>

definition add_edge ::
  "('k, 'p) ExpressionGraph \<Rightarrow> 'k \<Rightarrow> 'k \<Rightarrow>
     (py_error \<times> ('k, 'p) ExpressionGraph) + ('k, 'p) ExpressionGraph" where
  "add_edge G node1 node2 =
     (if \<not> dict_in node1 (nodes G) \<or> \<not> dict_in node2 (nodes G) then Inl (KeyError, G)
      else case map_of (out_edges G) node1 of
             None \<Rightarrow> Inl (KeyError, G)
           | Some outs \<Rightarrow>
               let G1 = G\<lparr>out_edges := dict_set (out_edges G) node1 (outs @ [node2])\<rparr>
               in case map_of (in_edges G1) node2 of
                    None \<Rightarrow> Inl (KeyError, G1)
                  | Some ins \<Rightarrow>
                      Inr (G1\<lparr>in_edges := dict_set (in_edges G1) node2 (ins @ [node1])\<rparr>))"

text \<open>
  The methods of the class keep the three dictionaries on the same keys; this is
  the state every graph built through them is in.
\<close>

definition graph_consistent :: "('k, 'p) ExpressionGraph \<Rightarrow> bool" where
  "graph_consistent G =
     (map fst (out_edges G) = map fst (nodes G) \<and> map fst (in_edges G) = map fst (nodes G))"

section \<open>The unique post-order enumerator\<close>

definition getops :: "bool \<Rightarrow> expr \<Rightarrow> expr list" where
  "getops skip_terminal_modifiers e =
     (if ufl_is_terminal e \<or>
         (skip_terminal_modifiers \<and> ufl_is_terminal_modifier e \<and> ufl_free_indices e = [])
      then [] else ufl_operands e)"

text \<open>
  A stack frame is an expression and its list of operands, where the operands
  already pushed are overwritten by \<^verbatim>\<open>None\<close>.  The inner \<^verbatim>\<open>for\<close> loop looks for
  the first operand that is not \<^verbatim>\<open>None\<close> and not a key of \<^verbatim>\<open>e2i\<close>.
\<close>

type_synonym frame = "expr \<times> expr option list"

fun next_operand :: "(expr, nat) dict \<Rightarrow> expr option list \<Rightarrow> nat \<Rightarrow> (nat \<times> expr) option" where
  "next_operand d [] i = None"
| "next_operand d (None # ops) i = next_operand d ops (Suc i)"
| "next_operand d (Some o' # ops) i =
     (if \<not> dict_in o' d then Some (i, o') else next_operand d ops (Suc i))"

definition frame_weight :: "frame \<Rightarrow> nat" where
  "frame_weight f =
     Suc (sum_list (map (\<lambda>x. case x of None \<Rightarrow> 0 | Some e \<Rightarrow> 2 * expr_nodes e) (snd f)))"

lemma getops_weight:
  "sum_list (map expr_nodes (getops stm e)) < expr_nodes e"
  by (cases e) (simp_all add: getops_def)

lemma getops_smaller: "o' \<in> set (getops stm e) \<Longrightarrow> expr_nodes o' < expr_nodes e"
proof -
  assume "o' \<in> set (getops stm e)"
  then have "expr_nodes o' \<le> sum_list (map expr_nodes (getops stm e))"
    by (simp add: member_le_sum_list)
  with getops_weight [of stm e] show ?thesis by simp
qed

lemma next_operand_weight:
  "next_operand d ops i = Some (j, e) \<Longrightarrow>
     i \<le> j \<and> j - i < length ops \<and> ops ! (j - i) = Some e"
proof (induction d ops i rule: next_operand.induct)
  case (1 d i)
  then show ?case by simp
next
  case (2 d ops i)
  then have "Suc i \<le> j \<and> j - Suc i < length ops \<and> ops ! (j - Suc i) = Some e" by simp
  then show ?case by (auto simp: Suc_diff_le nth_Cons')
next
  case (3 d o' ops i)
  show ?case
  proof (cases "dict_in o' d")
    case False
    with 3 show ?thesis by simp
  next
    case True
    with 3 have "Suc i \<le> j \<and> j - Suc i < length ops \<and> ops ! (j - Suc i) = Some e" by simp
    then show ?thesis by (auto simp: Suc_diff_le nth_Cons')
  qed
qed

lemma update_None_weight:
  assumes "k < length ops" and "ops ! k = Some e"
  shows "frame_weight (x, ops[k := None]) + 2 * expr_nodes e = frame_weight (x, ops)"
proof -
  let ?f = "\<lambda>x. case x of None \<Rightarrow> 0 | Some e \<Rightarrow> 2 * expr_nodes e"
  have "sum_list (map ?f ops) = sum_list (map ?f (take k ops)) + ?f (ops ! k)
          + sum_list (map ?f (drop (Suc k) ops))"
    using assms(1) by (subst id_take_nth_drop [of k ops]) simp_all
  moreover have "sum_list (map ?f (ops[k := None])) = sum_list (map ?f (take k ops))
          + sum_list (map ?f (drop (Suc k) ops))"
    using assms(1) by (simp add: upd_conv_take_nth_drop)
  ultimately show ?thesis
    using assms(2) by (simp add: frame_weight_def)
qed

lemma new_frame_weight:
  "frame_weight (e, map Some (getops stm e)) < 2 * expr_nodes e"
proof -
  have "sum_list (map (\<lambda>x. case x of None \<Rightarrow> 0 | Some e \<Rightarrow> 2 * expr_nodes e)
          (map Some (getops stm e))) = 2 * sum_list (map expr_nodes (getops stm e))"
    by (induction "getops stm e" arbitrary: e) (simp_all add: comp_def sum_list_const_mult)
  then show ?thesis
    using getops_weight [of stm e] by (simp add: frame_weight_def)
qed

text \<open>
  The \<^verbatim>\<open>while stack\<close> loop of \<^verbatim>\<open>_count_nodes_with_unique_post_traversal\<close>.  The
  head of the list is the top of the stack (\<^verbatim>\<open>stack[-1]\<close>).  \<^verbatim>\<open>skip\<close> is the tuple
  of skipped classes, to which the code adds \<^verbatim>\<open>Label\<close>.
\<close>

function traverse ::
  "string list \<Rightarrow> bool \<Rightarrow> frame list \<Rightarrow> (expr, nat) dict \<Rightarrow> (expr, nat) dict" where
  "traverse skip stm [] d = d"
| "traverse skip stm ((expr, ops) # stack) d =
     (case next_operand d ops 0 of
        Some (i, o') \<Rightarrow>
          traverse skip stm ((o', map Some (getops stm o')) # (expr, ops[i := None]) # stack) d
      | None \<Rightarrow>
          traverse skip stm stack
            (if \<not> isinstance expr (''Label'' # skip) then dict_set d expr (length d) else d))"
  by pat_completeness auto

termination
proof (relation "measure (\<lambda>(skip, stm, stack, d). sum_list (map frame_weight stack))")
  show "wf (measure (\<lambda>(skip, stm, stack, d). sum_list (map frame_weight stack)))"
    by simp
next
  fix skip :: "string list" and stm :: bool and expr :: expr and ops :: "expr option list"
    and stack :: "frame list" and d :: "(expr, nat) dict" and x2 :: "nat \<times> expr"
    and i :: nat and o' :: expr
  assume "next_operand d ops 0 = Some x2" and "(i, o') = x2"
  then have "next_operand d ops 0 = Some (i, o')" by simp
  from next_operand_weight [OF this] have k: "i < length ops" "ops ! i = Some o'"
    by simp_all
  show "((skip, stm, (o', map Some (getops stm o')) # (expr, ops[i := None]) # stack, d),
         (skip, stm, (expr, ops) # stack, d))
        \<in> measure (\<lambda>(skip, stm, stack, d). sum_list (map frame_weight stack))"
    using update_None_weight [OF k, of expr] new_frame_weight [of o' stm] by simp
next
  fix skip :: "string list" and stm :: bool and expr :: expr and ops :: "expr option list"
    and stack :: "frame list" and d :: "(expr, nat) dict"
  show "((skip, stm, stack,
          if \<not> isinstance expr (''Label'' # skip) then dict_set d expr (length d) else d),
         (skip, stm, (expr, ops) # stack, d))
        \<in> measure (\<lambda>(skip, stm, stack, d). sum_list (map frame_weight stack))"
    by (simp add: frame_weight_def)
qed

definition count_nodes_with_unique_post_traversal ::
  "expr \<Rightarrow> string list \<Rightarrow> bool \<Rightarrow> (expr, nat) dict" where
  "count_nodes_with_unique_post_traversal expr skip skip_terminal_modifiers =
     traverse skip skip_terminal_modifiers
       [(expr, map Some (getops skip_terminal_modifiers expr))] []"

text \<open>
  The expressions the traversal can reach from \<open>e\<close>: \<open>e\<close> itself and, through the
  operands \<^verbatim>\<open>getops\<close> returns, everything reachable from them.
\<close>

function subexprs :: "bool \<Rightarrow> expr \<Rightarrow> expr list" where
  "subexprs stm e = e # concat (map (subexprs stm) (getops stm e))"
  by pat_completeness auto

termination
  by (relation "measure (\<lambda>(stm, e). expr_nodes e)") (auto simp: getops_smaller)

declare subexprs.simps [simp del]

text \<open>
  The same loop as a transition relation on the pair of the stack and \<^verbatim>\<open>e2i\<close>:
  one iteration of \<^verbatim>\<open>while stack\<close> either pushes the first unvisited operand or
  pops the finished frame.  A run of the enumerator is a sequence of iterations
  from the initial stack to the empty stack.
\<close>

inductive step :: "string list \<Rightarrow> bool \<Rightarrow> frame list \<times> (expr, nat) dict \<Rightarrow>
    frame list \<times> (expr, nat) dict \<Rightarrow> bool" for skip :: "string list" and stm :: bool where
  push: "next_operand d ops 0 = Some (i, o') \<Longrightarrow>
     step skip stm ((expr, ops) # stack, d)
       ((o', map Some (getops stm o')) # (expr, ops[i := None]) # stack, d)"
| pop: "next_operand d ops 0 = None \<Longrightarrow>
     step skip stm ((expr, ops) # stack, d)
       (stack, if \<not> isinstance expr (''Label'' # skip) then dict_set d expr (length d) else d)"

definition enumerator_run :: "expr \<Rightarrow> string list \<Rightarrow> bool \<Rightarrow> (expr, nat) dict \<Rightarrow> bool" where
  "enumerator_run expr skip stm d =
     (step skip stm)\<^sup>*\<^sup>* ([(expr, map Some (getops stm expr))], []) ([], d)"

section \<open>Building the vertices\<close>

text \<open>
  The keyword arguments of a node: \<^verbatim>\<open>expression\<close>, and \<^verbatim>\<open>target\<close>, which is only
  ever set to \<^verbatim>\<open>True\<close> (\<open>False\<close> stands for the key being absent).
\<close>

record node_attrs =
  expression :: expr
  target :: bool

definition build_graph_vertices ::
  "expr \<Rightarrow> string list \<Rightarrow> bool \<Rightarrow> py_error + (nat, node_attrs) ExpressionGraph" where
  "build_graph_vertices expr skip skip_terminal_modifiers =
     (let d = count_nodes_with_unique_post_traversal expr skip skip_terminal_modifiers;
          GV = map fst (sort_key snd d);
          G = fold (\<lambda>(i, v) G. add_node G i \<lparr>expression = v, target = False\<rparr>)
                (enumerate 0 GV) (init\<lparr>e2i := d\<rparr>)
      in case map_of d expr of
           None \<Rightarrow> Inl KeyError
         | Some V_target \<Rightarrow>
             (case map_of (nodes G) V_target of
                None \<Rightarrow> Inl KeyError
              | Some v \<Rightarrow> Inr (G\<lparr>nodes := dict_set (nodes G) V_target (v\<lparr>target := True\<rparr>)\<rparr>)))"

text \<open>
  The graph with one node per entry of a dictionary \<open>d\<close>, keyed by the index, the
  last one flagged as target, and no edges: the form in which
  \<^verbatim>\<open>build_graph_vertices\<close> returns (lemma \<open>build_graph_vertices_eq\<close> below).
\<close>

definition vertices_graph :: "(expr, nat) dict \<Rightarrow> (nat, node_attrs) ExpressionGraph" where
  "vertices_graph d =
     \<lparr>nodes = map (\<lambda>p. (snd p, \<lparr>expression = fst p, target = (snd p = length d - 1)\<rparr>)) d,
      out_edges = map (\<lambda>p. (snd p, [])) d,
      in_edges = map (\<lambda>p. (snd p, [])) d,
      e2i = d\<rparr>"

section \<open>The scalar rebuilder\<close>

text \<open>
  The functions of the compiler that \<^verbatim>\<open>rebuild_with_scalar_subexpressions\<close> calls
  and that live in other modules are parameters: the modified-terminal test, the
  scalar reconstruction rule of an operator, the value numberer (its per-node
  symbol sequences and its symbol count) and the component extraction
  \<^verbatim>\<open>expr[c]\<close> of the symbolic library.  Each may raise.
\<close>

record collaborators =
  is_modified_terminal :: "expr \<Rightarrow> bool"
  reconstruct :: "expr \<Rightarrow> expr option list list \<Rightarrow> py_error + expr list"
  compute_symbols :: "(nat, node_attrs) ExpressionGraph \<Rightarrow> py_error + (nat list list \<times> nat)"
  getitem :: "expr \<Rightarrow> nat list \<Rightarrow> py_error + expr"

text \<open>
  Modelled from the spec: \<^verbatim>\<open>ufl.permutation.compute_indices\<close> of the symbolic
  library, the row-major enumeration of the multi-indices of a shape.
\<close>

fun compute_indices :: "nat list \<Rightarrow> nat list list" where
  "compute_indices [] = [[]]"
| "compute_indices (n # sh) =
     concat (map (\<lambda>i. map (\<lambda>sub. i # sub) (compute_indices sh)) [0..<n])"

text \<open>\<^verbatim>\<open>all(W[s] is not None for s in vs)\<close>: lazy, so it stops at the first empty slot.\<close>

fun all_filled :: "expr option list \<Rightarrow> nat list \<Rightarrow> py_error + bool" where
  "all_filled W [] = Inr True"
| "all_filled W (s # vs) =
     (if \<not> s < length W then Inl IndexError
      else if W ! s = None then Inr False
      else all_filled W vs)"

text \<open>\<^verbatim>\<open>[expr[c] for c in compute_indices(sh)]\<close>\<close>

fun components :: "collaborators \<Rightarrow> expr \<Rightarrow> nat list list \<Rightarrow> py_error + expr list" where
  "components C expr [] = Inr []"
| "components C expr (c # cs) =
     (case getitem C expr c of
        Inl e \<Rightarrow> Inl e
      | Inr w \<Rightarrow> (case components C expr cs of Inl e \<Rightarrow> Inl e | Inr ws \<Rightarrow> Inr (w # ws)))"

text \<open>The loop that collects \<^verbatim>\<open>sops\<close>, the symbols of the operands.\<close>

fun operand_symbols ::
  "(expr, nat) dict \<Rightarrow> nat list list \<Rightarrow> expr list \<Rightarrow> py_error + nat list list" where
  "operand_symbols d V [] = Inr []"
| "operand_symbols d V (vop # vops) =
     (if isinstance vop [''MultiIndex'']
      then (case operand_symbols d V vops of Inl e \<Rightarrow> Inl e | Inr sops \<Rightarrow> Inr ([] # sops))
      else case map_of d vop of
             None \<Rightarrow> Inl KeyError
           | Some k \<Rightarrow>
               if \<not> k < length V then Inl IndexError
               else (case operand_symbols d V vops of
                       Inl e \<Rightarrow> Inl e
                     | Inr sops \<Rightarrow> Inr (V ! k # sops)))"

text \<open>\<^verbatim>\<open>wops = [tuple(W[k] for k in so) for so in sops]\<close>\<close>

fun fetch :: "expr option list \<Rightarrow> nat list \<Rightarrow> py_error + expr option list" where
  "fetch W [] = Inr []"
| "fetch W (k # so) =
     (if \<not> k < length W then Inl IndexError
      else (case fetch W so of Inl e \<Rightarrow> Inl e | Inr ws \<Rightarrow> Inr (W ! k # ws)))"

fun fetch_all :: "expr option list \<Rightarrow> nat list list \<Rightarrow> py_error + expr option list list" where
  "fetch_all W [] = Inr []"
| "fetch_all W (so # sops) =
     (case fetch W so of
        Inl e \<Rightarrow> Inl e
      | Inr ws \<Rightarrow> (case fetch_all W sops of Inl e \<Rightarrow> Inl e | Inr wops \<Rightarrow> Inr (ws # wops)))"

text \<open>
  The loop over \<^verbatim>\<open>zip(vs, ws)\<close> that stores the new scalar expressions, with the
  set \<^verbatim>\<open>handled\<close> of the symbols stored by this node.
\<close>

fun store :: "expr option list \<Rightarrow> nat set \<Rightarrow> (nat \<times> expr) list \<Rightarrow> py_error + expr option list" where
  "store W handled [] = Inr W"
| "store W handled ((s, w) # rest) =
     (if \<not> s < length W then Inl IndexError
      else if W ! s = None then store (W[s := Some w]) (insert s handled) rest
      else if s \<in> handled then store W handled rest
      else Inl AssertionError)"

text \<open>
  The scalar expressions \<^verbatim>\<open>ws\<close> of one node that is not skipped: the two branches
  of \<^verbatim>\<open>if is_modified_terminal(expr)\<close>.
\<close>

definition node_scalars ::
  "collaborators \<Rightarrow> (expr, nat) dict \<Rightarrow> nat list list \<Rightarrow> expr option list \<Rightarrow> expr \<Rightarrow>
     nat list \<Rightarrow> py_error + expr list" where
  "node_scalars C d V W expr vs =
     (if is_modified_terminal C expr then
        (if ufl_shape expr \<noteq> [] then components C expr (compute_indices (ufl_shape expr))
         else if length vs \<noteq> 1 then Inl RuntimeError
         else Inr [expr])
      else
        (case operand_symbols d V (ufl_operands expr) of
           Inl e \<Rightarrow> Inl e
         | Inr sops \<Rightarrow>
             (case fetch_all W sops of
                Inl e \<Rightarrow> Inl e
              | Inr wops \<Rightarrow>
                  (case reconstruct C expr wops of
                     Inl e \<Rightarrow> Inl e
                   | Inr ws \<Rightarrow>
                       if length vs \<noteq> length ws then Inl RuntimeError else Inr ws))))"

text \<open>One iteration of \<^verbatim>\<open>for i, v in G.nodes.items()\<close>.\<close>

definition rebuild_node ::
  "collaborators \<Rightarrow> (expr, nat) dict \<Rightarrow> nat list list \<Rightarrow> expr option list \<Rightarrow>
     nat \<times> node_attrs \<Rightarrow> py_error + expr option list" where
  "rebuild_node C d V W iv =
     (if \<not> fst iv < length V then Inl IndexError
      else let vs = V ! fst iv in
        case all_filled W vs of
          Inl e \<Rightarrow> Inl e
        | Inr True \<Rightarrow> Inr W
        | Inr False \<Rightarrow>
            (case node_scalars C d V W (expression (snd iv)) vs of
               Inl e \<Rightarrow> Inl e
             | Inr ws \<Rightarrow> store W {} (zip vs ws)))"

fun rebuild_loop ::
  "collaborators \<Rightarrow> (expr, nat) dict \<Rightarrow> nat list list \<Rightarrow> expr option list \<Rightarrow>
     (nat \<times> node_attrs) list \<Rightarrow> py_error + expr option list" where
  "rebuild_loop C d V W [] = Inr W"
| "rebuild_loop C d V W (iv # rest) =
     (case rebuild_node C d V W iv of
        Inl e \<Rightarrow> Inl e
      | Inr W' \<Rightarrow> rebuild_loop C d V W' rest)"

text \<open>
  The result is \<^verbatim>\<open>W[V_symbols[-1][0]]\<close>, which is \<^verbatim>\<open>None\<close> when that slot was
  never filled.
\<close>

definition rebuild_with_scalar_subexpressions ::
  "collaborators \<Rightarrow> (nat, node_attrs) ExpressionGraph \<Rightarrow> py_error + expr option" where
  "rebuild_with_scalar_subexpressions C G =
     (case compute_symbols C G of
        Inl e \<Rightarrow> Inl e
      | Inr (V_symbols, total_unique_symbols) \<Rightarrow>
          (case rebuild_loop C (e2i G) V_symbols (replicate total_unique_symbols None) (nodes G) of
             Inl e \<Rightarrow> Inl e
           | Inr W \<Rightarrow>
               if V_symbols = [] then Inl IndexError
               else (case last V_symbols of
                       [] \<Rightarrow> Inl IndexError
                     | vs # _ \<Rightarrow> if \<not> vs < length W then Inl IndexError else Inr (W ! vs))))"

section \<open>The final graph\<close>

fun operand_indices :: "(expr, nat) dict \<Rightarrow> expr list \<Rightarrow> py_error + nat list" where
  "operand_indices d [] = Inr []"
| "operand_indices d (o' # os) =
     (case map_of d o' of
        None \<Rightarrow> Inl KeyError
      | Some j \<Rightarrow> (case operand_indices d os of Inl e \<Rightarrow> Inl e | Inr js \<Rightarrow> Inr (j # js)))"

definition node_deps :: "(expr, nat) dict \<Rightarrow> expr \<Rightarrow> py_error + nat list" where
  "node_deps d expr =
     (if ufl_is_terminal expr \<or> (ufl_is_terminal_modifier expr \<and> ufl_free_indices expr = [])
      then Inr [] else operand_indices d (ufl_operands expr))"

fun compute_deps :: "(expr, nat) dict \<Rightarrow> (nat \<times> node_attrs) list \<Rightarrow> py_error + nat list list" where
  "compute_deps d [] = Inr []"
| "compute_deps d (iv # rest) =
     (case node_deps d (expression (snd iv)) of
        Inl e \<Rightarrow> Inl e
      | Inr deps \<Rightarrow> (case compute_deps d rest of Inl e \<Rightarrow> Inl e | Inr V \<Rightarrow> Inr (deps # V)))"

fun add_edges_from ::
  "('k, 'p) ExpressionGraph \<Rightarrow> 'k \<Rightarrow> 'k list \<Rightarrow> py_error + ('k, 'p) ExpressionGraph" where
  "add_edges_from G i [] = Inr G"
| "add_edges_from G i (j # edges) =
     (case add_edge G i j of Inl (e, G') \<Rightarrow> Inl e | Inr G' \<Rightarrow> add_edges_from G' i edges)"

fun add_all_edges ::
  "('k, 'p) ExpressionGraph \<Rightarrow> ('k \<times> 'k list) list \<Rightarrow> py_error + ('k, 'p) ExpressionGraph" where
  "add_all_edges G [] = Inr G"
| "add_all_edges G ((i, edges) # rest) =
     (case add_edges_from G i edges of Inl e \<Rightarrow> Inl e | Inr G' \<Rightarrow> add_all_edges G' rest)"

text \<open>
  The part of \<^verbatim>\<open>build_scalar_graph\<close> after the second \<^verbatim>\<open>build_graph_vertices\<close>:
  the dependencies of every node, then the edges.
\<close>

definition compute_graph_edges ::
  "(nat, node_attrs) ExpressionGraph \<Rightarrow> py_error + (nat, node_attrs) ExpressionGraph" where
  "compute_graph_edges G =
     (case compute_deps (e2i G) (nodes G) of
        Inl e \<Rightarrow> Inl e
      | Inr V_deps \<Rightarrow> add_all_edges G (enumerate 0 V_deps))"

text \<open>
  A rebuilt expression that is \<^verbatim>\<open>None\<close> makes the second enumeration raise an
  \<^verbatim>\<open>AttributeError\<close> on its first attribute access.
\<close>

definition build_scalar_graph ::
  "collaborators \<Rightarrow> expr \<Rightarrow> py_error + (nat, node_attrs) ExpressionGraph" where
  "build_scalar_graph C expr =
     (case build_graph_vertices expr [''MultiIndex''] False of
        Inl e \<Rightarrow> Inl e
      | Inr G \<Rightarrow>
          (case rebuild_with_scalar_subexpressions C G of
             Inl e \<Rightarrow> Inl e
           | Inr None \<Rightarrow> Inl AttributeError
           | Inr (Some scalar_expression) \<Rightarrow>
               (case build_graph_vertices scalar_expression [] True of
                  Inl e \<Rightarrow> Inl e
                | Inr G2 \<Rightarrow> compute_graph_edges G2)))"

section \<open>Invariants of the traversal\<close>

text \<open>
  An expression is skipped when its class is \<^verbatim>\<open>Label\<close> or one of \<^verbatim>\<open>skip\<close>; it
  is settled when it and everything the traversal can reach from it is a key of
  \<^verbatim>\<open>e2i\<close> or skipped.  In a frame, an operand
  that was overwritten by \<^verbatim>\<open>None\<close> is settled or is the expression of the frame
  pushed on top of it (\<open>upper\<close>).  The expressions on the stack are not yet keys and
  get strictly larger towards the bottom.  The dictionary numbers its keys
  \<open>0, 1, ...\<close> in insertion order, holds no skipped expression, every operand
  the traversal descends into is skipped or has a smaller index, and every key is
  settled.
\<close>

definition skipped :: "string list \<Rightarrow> expr \<Rightarrow> bool" where
  "skipped skip e = isinstance e (''Label'' # skip)"

definition settled :: "string list \<Rightarrow> bool \<Rightarrow> (expr, nat) dict \<Rightarrow> expr \<Rightarrow> bool" where
  "settled skip stm d e = (\<forall>x \<in> set (subexprs stm e). dict_in x d \<or> skipped skip x)"

definition frame_ok ::
  "string list \<Rightarrow> bool \<Rightarrow> (expr, nat) dict \<Rightarrow> expr option \<Rightarrow> frame \<Rightarrow> bool" where
  "frame_ok skip stm d upper f =
     list_all2 (\<lambda>a b. a = Some b \<or> (a = None \<and> (settled skip stm d b \<or> upper = Some b)))
       (snd f) (getops stm (fst f))"

fun stack_ok ::
  "string list \<Rightarrow> bool \<Rightarrow> (expr, nat) dict \<Rightarrow> expr option \<Rightarrow> frame list \<Rightarrow> bool" where
  "stack_ok skip stm d upper [] = True"
| "stack_ok skip stm d upper (f # rest) =
     (frame_ok skip stm d upper f \<and> \<not> dict_in (fst f) d \<and>
      (\<forall>g \<in> set rest. expr_nodes (fst f) < expr_nodes (fst g)) \<and>
      stack_ok skip stm d (Some (fst f)) rest)"

definition dict_ok :: "string list \<Rightarrow> bool \<Rightarrow> (expr, nat) dict \<Rightarrow> bool" where
  "dict_ok skip stm d =
     (map snd d = [0..<length d] \<and> distinct (map fst d) \<and>
      (\<forall>(e, i) \<in> set d. \<not> skipped skip e \<and>
         (\<forall>o' \<in> set (getops stm e). skipped skip o' \<or> (\<exists>j<i. (o', j) \<in> set d))) \<and>
      (\<forall>(e, i) \<in> set d. settled skip stm d e))"

section \<open>Example expressions\<close>

text \<open>
  Two scalar coefficients, their product, the sum \<open>a*b + a*b\<close> whose two operands
  are the same product, the restriction \<open>a('+')\<close> (a terminal modifier without
  free indices) and the sum \<open>a('+') + a\<close>.
\<close>

definition ex_a :: expr where
  "ex_a = Terminal ''Coefficient'' ''a'' []"

definition ex_b :: expr where
  "ex_b = Terminal ''Coefficient'' ''b'' []"

definition ex_ab :: expr where
  "ex_ab = Operator ''Product'' False [] [] [ex_a, ex_b]"

definition ex_sum :: expr where
  "ex_sum = Operator ''Sum'' False [] [] [ex_ab, ex_ab]"

definition ex_ra :: expr where
  "ex_ra = Operator ''PositiveRestricted'' True [] [] [ex_a]"

definition ex_ra_sum :: expr where
  "ex_ra_sum = Operator ''Sum'' False [] [] [ex_ra, ex_a]"

text \<open>
  Stand-ins for the collaborators on scalar expressions without symmetries: a
  terminal is a modified terminal, node \<open>i\<close> has the single symbol \<open>i\<close>, and an
  operator is rebuilt from the stored expressions of its operands.  The second
  one has a reconstruction rule that returns no expression.  The graph is the one
  \<^verbatim>\<open>build_graph_vertices\<close> builds for \<open>a*b\<close>.
\<close>

definition ex_collab :: collaborators where
  "ex_collab =
     \<lparr>is_modified_terminal = ufl_is_terminal,
      reconstruct = (\<lambda>e wops. Inr [Operator (ufl_class e) False [] [] (map the (concat wops))]),
      compute_symbols = (\<lambda>G. Inr (map (\<lambda>iv. [fst iv]) (nodes G), length (nodes G))),
      getitem = (\<lambda>e c. Inr (Operator ''Indexed'' True [] [] [e]))\<rparr>"

definition ex_collab_short :: collaborators where
  "ex_collab_short = ex_collab\<lparr>reconstruct := (\<lambda>e wops. Inr [])\<rparr>"

definition ex_graph_ab :: "(nat, node_attrs) ExpressionGraph" where
  "ex_graph_ab =
     \<lparr>nodes = [(0, \<lparr>expression = ex_a, target = False\<rparr>),
               (1, \<lparr>expression = ex_b, target = False\<rparr>),
               (2, \<lparr>expression = ex_ab, target = True\<rparr>)],
      out_edges = [(0, []), (1, []), (2, [])],
      in_edges = [(0, []), (1, []), (2, [])],
      e2i = [(ex_a, 0), (ex_b, 1), (ex_ab, 2)]\<rparr>"

text \<open>
  The final graph of \<open>a*b + a*b\<close>, and the expression \<open>a*b + a\<close>, in which \<open>a\<close> is an
  operand of the product and of the sum, with its final graph.
\<close>

definition ex_final_graph :: "(nat, node_attrs) ExpressionGraph" where
  "ex_final_graph =
     \<lparr>nodes = [(0, \<lparr>expression = ex_a, target = False\<rparr>),
               (1, \<lparr>expression = ex_b, target = False\<rparr>),
               (2, \<lparr>expression = ex_ab, target = False\<rparr>),
               (3, \<lparr>expression = ex_sum, target = True\<rparr>)],
      out_edges = [(0, []), (1, []), (2, [0, 1]), (3, [2, 2])],
      in_edges = [(0, [2]), (1, [2]), (2, [3, 3]), (3, [])],
      e2i = [(ex_a, 0), (ex_b, 1), (ex_ab, 2), (ex_sum, 3)]\<rparr>"

definition ex_shared :: expr where
  "ex_shared = Operator ''Sum'' False [] [] [ex_ab, ex_a]"

definition ex_shared_graph :: "(nat, node_attrs) ExpressionGraph" where
  "ex_shared_graph =
     \<lparr>nodes = [(0, \<lparr>expression = ex_a, target = False\<rparr>),
               (1, \<lparr>expression = ex_b, target = False\<rparr>),
               (2, \<lparr>expression = ex_ab, target = False\<rparr>),
               (3, \<lparr>expression = ex_shared, target = True\<rparr>)],
      out_edges = [(0, []), (1, []), (2, [0, 1]), (3, [2, 0])],
      in_edges = [(0, [2, 3]), (1, [2]), (2, [3]), (3, [])],
      e2i = [(ex_a, 0), (ex_b, 1), (ex_ab, 2), (ex_shared, 3)]\<rparr>"

text \<open>
  The restriction \<open>a('-')\<close>, the quotient \<open>a('+') / a('-')\<close>, in which \<open>a\<close> is the
  operand of two terminal modifiers, a stand-in for the collaborators that takes
  a terminal or a terminal modifier for a modified terminal, and the final
  graph of the quotient.
\<close>

definition ex_rm :: expr where
  "ex_rm = Operator ''NegativeRestricted'' True [] [] [ex_a]"

definition ex_div :: expr where
  "ex_div = Operator ''Division'' False [] [] [ex_ra, ex_rm]"

definition ex_collab_mt :: collaborators where
  "ex_collab_mt =
     ex_collab\<lparr>is_modified_terminal := (\<lambda>e. ufl_is_terminal e \<or> ufl_is_terminal_modifier e)\<rparr>"

definition ex_div_graph :: "(nat, node_attrs) ExpressionGraph" where
  "ex_div_graph =
     \<lparr>nodes = [(0, \<lparr>expression = ex_ra, target = False\<rparr>),
               (1, \<lparr>expression = ex_rm, target = False\<rparr>),
               (2, \<lparr>expression = ex_div, target = True\<rparr>)],
      out_edges = [(0, []), (1, []), (2, [0, 1])],
      in_edges = [(0, [2]), (1, [2]), (2, [])],
      e2i = [(ex_ra, 0), (ex_rm, 1), (ex_div, 2)]\<rparr>"

section \<open>Properties of the dictionary operations\<close>

lemma map_of_dict_set: "map_of (dict_set d k v) = (map_of d)(k \<mapsto> v)"
  by (induction d k v rule: dict_set.induct) auto

lemma keys_dict_set:
  "map fst (dict_set d k v) = (if k \<in> fst ` set d then map fst d else map fst d @ [k])"
  by (induction d k v rule: dict_set.induct) auto

lemma dict_set_new: "k \<notin> fst ` set d \<Longrightarrow> dict_set d k v = d @ [(k, v)]"
  by (induction d k v rule: dict_set.induct) auto

lemma dict_in_keys: "dict_in k d \<longleftrightarrow> k \<in> fst ` set d"
  by (simp add: dict_in_def map_of_eq_None_iff)

lemma dict_in_map_fst: "map fst d = map fst d' \<Longrightarrow> dict_in k d = dict_in k d'"
proof -
  assume "map fst d = map fst d'"
  then have "set (map fst d) = set (map fst d')" by simp
  then show ?thesis by (simp add: dict_in_keys)
qed

section \<open>Properties of the graph container\<close>

lemma graph_consistent_init: "graph_consistent init"
  by (simp add: graph_consistent_def init_def)

lemma graph_consistent_add_node: "graph_consistent G \<Longrightarrow> graph_consistent (add_node G k p)"
proof -
  assume c: "graph_consistent G"
  then have "fst ` set (out_edges G) = fst ` set (nodes G)"
    and "fst ` set (in_edges G) = fst ` set (nodes G)"
    unfolding graph_consistent_def by (metis set_map)+
  with c show ?thesis
    by (simp add: graph_consistent_def add_node_def keys_dict_set)
qed

lemma add_edge_unknown:
  "\<not> dict_in n1 (nodes G) \<or> \<not> dict_in n2 (nodes G) \<Longrightarrow> add_edge G n1 n2 = Inl (KeyError, G)"
  by (simp add: add_edge_def)

lemma add_edge_known:
  assumes c: "graph_consistent G"
    and n1: "dict_in n1 (nodes G)" and n2: "dict_in n2 (nodes G)"
  obtains outs ins where "map_of (out_edges G) n1 = Some outs"
    and "map_of (in_edges G) n2 = Some ins"
    and "add_edge G n1 n2 =
           Inr (G\<lparr>out_edges := dict_set (out_edges G) n1 (outs @ [n2]),
                  in_edges := dict_set (in_edges G) n2 (ins @ [n1])\<rparr>)"
proof -
  from c have ko: "map fst (out_edges G) = map fst (nodes G)"
    and ki: "map fst (in_edges G) = map fst (nodes G)"
    by (simp_all add: graph_consistent_def)
  from n1 dict_in_map_fst [OF ko, of n1] obtain outs where o: "map_of (out_edges G) n1 = Some outs"
    by (auto simp: dict_in_def)
  from n2 dict_in_map_fst [OF ki, of n2] obtain ins where i: "map_of (in_edges G) n2 = Some ins"
    by (auto simp: dict_in_def)
  have "add_edge G n1 n2 =
           Inr (G\<lparr>out_edges := dict_set (out_edges G) n1 (outs @ [n2]),
                  in_edges := dict_set (in_edges G) n2 (ins @ [n1])\<rparr>)"
    using n1 n2 o i by (simp add: add_edge_def Let_def)
  with o i that show thesis by blast
qed

lemma graph_consistent_add_edge:
  assumes "graph_consistent G" and "add_edge G n1 n2 = Inr G'"
  shows "graph_consistent G'"
proof (cases "dict_in n1 (nodes G) \<and> dict_in n2 (nodes G)")
  case False
  with assms(2) show ?thesis by (auto simp: add_edge_def)
next
  case True
  from assms(1) have ko: "map fst (out_edges G) = map fst (nodes G)"
    and ki: "map fst (in_edges G) = map fst (nodes G)"
    by (simp_all add: graph_consistent_def)
  from True have "n1 \<in> fst ` set (out_edges G)" "n2 \<in> fst ` set (in_edges G)"
    using dict_in_map_fst [OF ko, of n1] dict_in_map_fst [OF ki, of n2]
    by (simp_all add: dict_in_keys)
  moreover from True assms(1) obtain outs ins where
    "add_edge G n1 n2 =
           Inr (G\<lparr>out_edges := dict_set (out_edges G) n1 (outs @ [n2]),
                  in_edges := dict_set (in_edges G) n2 (ins @ [n1])\<rparr>)"
    by (auto elim: add_edge_known)
  ultimately show ?thesis
    using assms ko ki by (auto simp: graph_consistent_def keys_dict_set)
qed

text \<open>
  Claim C3.  When \<open>n1\<close> or \<open>n2\<close> is not a node, \<^verbatim>\<open>add_edge(n1, n2)\<close> raises
  \<^verbatim>\<open>KeyError\<close> and leaves the graph, hence every out-edge and in-edge list, as
  it was.  Otherwise, in a graph whose three dictionaries have the same keys
  (every graph built with the methods of the class), it returns, the out-edges
  of \<open>n1\<close> are the old ones followed by \<open>n2\<close>, the in-edges of \<open>n2\<close> are the old
  ones followed by \<open>n1\<close>, and no other list changes.
\<close>

theorem add_edge_spec:
  shows "(\<not> dict_in n1 (nodes G) \<or> \<not> dict_in n2 (nodes G) \<longrightarrow>
            add_edge G n1 n2 = Inl (KeyError, G)) \<and>
         (graph_consistent G \<and> dict_in n1 (nodes G) \<and> dict_in n2 (nodes G) \<longrightarrow>
            (\<exists>G' outs ins. add_edge G n1 n2 = Inr G' \<and>
               map_of (out_edges G) n1 = Some outs \<and> map_of (in_edges G) n2 = Some ins \<and>
               nodes G' = nodes G \<and>
               map_of (out_edges G') = (map_of (out_edges G))(n1 \<mapsto> outs @ [n2]) \<and>
               map_of (in_edges G') = (map_of (in_edges G))(n2 \<mapsto> ins @ [n1])))"
proof (intro conjI impI)
  assume "\<not> dict_in n1 (nodes G) \<or> \<not> dict_in n2 (nodes G)"
  then show "add_edge G n1 n2 = Inl (KeyError, G)" by (rule add_edge_unknown)
next
  assume "graph_consistent G \<and> dict_in n1 (nodes G) \<and> dict_in n2 (nodes G)"
  then obtain outs ins where "map_of (out_edges G) n1 = Some outs"
    and "map_of (in_edges G) n2 = Some ins"
    and "add_edge G n1 n2 =
           Inr (G\<lparr>out_edges := dict_set (out_edges G) n1 (outs @ [n2]),
                  in_edges := dict_set (in_edges G) n2 (ins @ [n1])\<rparr>)"
    by (auto elim: add_edge_known)
  then show "\<exists>G' outs ins. add_edge G n1 n2 = Inr G' \<and>
               map_of (out_edges G) n1 = Some outs \<and> map_of (in_edges G) n2 = Some ins \<and>
               nodes G' = nodes G \<and>
               map_of (out_edges G') = (map_of (out_edges G))(n1 \<mapsto> outs @ [n2]) \<and>
               map_of (in_edges G') = (map_of (in_edges G))(n2 \<mapsto> ins @ [n1])"
    by (simp add: map_of_dict_set)
qed

theorem add_edge_spec_witness:
  "graph_consistent (add_node (add_node init (0::nat) ()) 1 ()) \<and>
   add_edge (add_node (add_node init (0::nat) ()) 1 ()) 0 5 =
     Inl (KeyError, add_node (add_node init (0::nat) ()) 1 ()) \<and>
   (\<exists>G'. add_edge (add_node (add_node init (0::nat) ()) 1 ()) 0 1 = Inr G' \<and>
      map_of (out_edges G') 0 = Some [1] \<and> map_of (in_edges G') 1 = Some [0])"
proof -
  let ?G = "add_node (add_node init (0::nat) ()) 1 ()"
  have c: "graph_consistent ?G"
    by (intro graph_consistent_add_node graph_consistent_init)
  have k: "dict_in 0 (nodes ?G)" "dict_in 1 (nodes ?G)" "\<not> dict_in 5 (nodes ?G)"
    and l: "map_of (out_edges ?G) 0 = Some []" "map_of (in_edges ?G) 1 = Some []"
    by (simp_all add: add_node_def init_def dict_in_def)
  from add_edge_spec [of 0 ?G 5] k have "add_edge ?G 0 5 = Inl (KeyError, ?G)" by blast
  moreover from add_edge_spec [of 0 ?G 1] c k l
  have "\<exists>G'. add_edge ?G 0 1 = Inr G' \<and>
      map_of (out_edges G') 0 = Some [1] \<and> map_of (in_edges G') 1 = Some [0]"
    by auto
  ultimately show ?thesis using c by blast
qed

text \<open>
  Claim C10.  \<^verbatim>\<open>add_node(k, ...)\<close> always returns; afterwards the payload of \<open>k\<close>
  is the new one and the out-edge and in-edge lists of \<open>k\<close> are empty, whatever
  they held before, and every other key keeps what it had.
\<close>

theorem add_node_spec:
  "map_of (nodes (add_node G k p)) = (map_of (nodes G))(k \<mapsto> p) \<and>
   map_of (out_edges (add_node G k p)) = (map_of (out_edges G))(k \<mapsto> []) \<and>
   map_of (in_edges (add_node G k p)) = (map_of (in_edges G))(k \<mapsto> []) \<and>
   e2i (add_node G k p) = e2i G"
  by (simp add: add_node_def map_of_dict_set)

section \<open>Properties of the enumerator\<close>

lemma next_operand_Some:
  "next_operand d ops i = Some (j, e) \<Longrightarrow>
     i \<le> j \<and> j - i < length ops \<and> ops ! (j - i) = Some e \<and> \<not> dict_in e d"
proof (induction d ops i rule: next_operand.induct)
  case (1 d i)
  then show ?case by simp
next
  case (2 d ops i)
  then have "Suc i \<le> j \<and> j - Suc i < length ops \<and> ops ! (j - Suc i) = Some e \<and> \<not> dict_in e d"
    by simp
  then show ?case by (auto simp: Suc_diff_le nth_Cons')
next
  case (3 d o' ops i)
  show ?case
  proof (cases "dict_in o' d")
    case False
    with 3 show ?thesis by simp
  next
    case True
    with 3 have "Suc i \<le> j \<and> j - Suc i < length ops \<and> ops ! (j - Suc i) = Some e \<and> \<not> dict_in e d"
      by simp
    then show ?thesis by (auto simp: Suc_diff_le nth_Cons')
  qed
qed

lemma next_operand_None:
  "next_operand d ops i = None \<Longrightarrow> Some e \<in> set ops \<Longrightarrow> dict_in e d"
  by (induction d ops i rule: next_operand.induct) (auto split: if_splits)

lemma subexprs_set:
  "set (subexprs stm e) = insert e (\<Union>o' \<in> set (getops stm e). set (subexprs stm o'))"
  by (subst subexprs.simps) simp

lemma subexprs_self: "e \<in> set (subexprs stm e)"
  by (subst subexprs_set) simp

lemma subexprs_operand:
  "o' \<in> set (getops stm e) \<Longrightarrow> x \<in> set (subexprs stm o') \<Longrightarrow> x \<in> set (subexprs stm e)"
  by (subst subexprs_set) blast

lemma settled_iff:
  "settled skip stm d e \<longleftrightarrow>
     (dict_in e d \<or> skipped skip e) \<and> (\<forall>o' \<in> set (getops stm e). settled skip stm d o')"
  unfolding settled_def by (subst subexprs_set) auto

lemma settled_mono: "settled skip stm d b \<Longrightarrow> settled skip stm (d @ [(e, n)]) b"
  by (auto simp: settled_def dict_in_keys)

lemma frame_ok_mono:
  assumes "frame_ok skip stm d upper f"
  shows "frame_ok skip stm (d @ [(e, n)]) upper f"
  using assms unfolding frame_ok_def
  by (rule list_all2_mono) (auto intro: settled_mono)

lemma frame_ok_settle:
  assumes "frame_ok skip stm d (Some e) f" and "settled skip stm d' e"
    and "\<And>b. settled skip stm d b \<Longrightarrow> settled skip stm d' b"
  shows "frame_ok skip stm d' None f"
  using assms(1) unfolding frame_ok_def
  by (rule list_all2_mono) (use assms(2,3) in auto)

lemma stack_ok_mono:
  "stack_ok skip stm d upper stack \<Longrightarrow> \<forall>g \<in> set stack. fst g \<noteq> e \<Longrightarrow>
     stack_ok skip stm (d @ [(e, n)]) upper stack"
proof (induction stack arbitrary: upper)
  case Nil
  then show ?case by simp
next
  case (Cons f rest)
  then show ?case
    by (auto simp: frame_ok_mono dict_in_keys)
qed

lemma stack_ok_upper:
  "stack_ok skip stm d (Some e) stack \<Longrightarrow> settled skip stm d e \<Longrightarrow> stack_ok skip stm d None stack"
  by (cases stack) (auto intro: frame_ok_settle)

lemma dict_ok_values: "dict_ok skip stm d \<Longrightarrow> (e, j) \<in> set d \<Longrightarrow> j < length d"
proof -
  assume "dict_ok skip stm d" and "(e, j) \<in> set d"
  then have "j \<in> set (map snd d)" and "map snd d = [0..<length d]"
    by (force, simp add: dict_ok_def)
  then show ?thesis by simp
qed

lemma dict_ok_append:
  assumes ok: "dict_ok skip stm d" and new: "\<not> dict_in e d" and ns: "\<not> skipped skip e"
    and ops: "\<forall>o' \<in> set (getops stm e). settled skip stm d o'"
  shows "dict_ok skip stm (d @ [(e, length d)])"
proof -
  have "map snd (d @ [(e, length d)]) = [0..<length (d @ [(e, length d)])]"
    using ok by (simp add: dict_ok_def)
  moreover have "distinct (map fst (d @ [(e, length d)]))"
    using ok new by (simp add: dict_ok_def dict_in_keys)
  moreover have "\<not> skipped skip x \<and>
        (\<forall>o' \<in> set (getops stm x). skipped skip o' \<or> (\<exists>j<i. (o', j) \<in> set (d @ [(e, length d)])))"
    if "(x, i) \<in> set (d @ [(e, length d)])" for x i
  proof (cases "(x, i) \<in> set d")
    case True
    with ok show ?thesis by (fastforce simp: dict_ok_def)
  next
    case False
    with that have x: "x = e" "i = length d" by simp_all
    have "skipped skip o' \<or> (\<exists>j<length d. (o', j) \<in> set d)" if "o' \<in> set (getops stm e)" for o'
    proof (cases "skipped skip o'")
      case True
      then show ?thesis by simp
    next
      case False
      from ops that have "settled skip stm d o'" by blast
      with False have "dict_in o' d" by (subst (asm) settled_iff) blast
      then obtain j where "(o', j) \<in> set d" by (auto simp: dict_in_keys)
      with dict_ok_values [OF ok this] show ?thesis by blast
    qed
    with ns x show ?thesis by auto
  qed
  moreover have "settled skip stm (d @ [(e, length d)]) x"
    if "(x, i) \<in> set (d @ [(e, length d)])" for x i
  proof (cases "(x, i) \<in> set d")
    case True
    with ok have "settled skip stm d x" by (auto simp: dict_ok_def)
    then show ?thesis by (rule settled_mono)
  next
    case False
    with that have x: "x = e" by simp
    have "dict_in e (d @ [(e, length d)])" by (simp add: dict_in_keys)
    moreover have "\<forall>o' \<in> set (getops stm e). settled skip stm (d @ [(e, length d)]) o'"
      using ops by (auto intro: settled_mono)
    ultimately show ?thesis unfolding x by (subst settled_iff) blast
  qed
  ultimately show ?thesis
    unfolding dict_ok_def by blast
qed

lemma frame_settled:
  assumes ok: "dict_ok skip stm d"
    and "frame_ok skip stm d None (e, ops)" and "next_operand d ops 0 = None"
  shows "\<forall>o' \<in> set (getops stm e). settled skip stm d o'"
proof
  fix o' assume "o' \<in> set (getops stm e)"
  then obtain k where k: "k < length (getops stm e)" "getops stm e ! k = o'"
    by (auto simp: in_set_conv_nth)
  from assms(2) have len: "length ops = length (getops stm e)"
    and nth: "ops ! k = Some o' \<or> (ops ! k = None \<and> settled skip stm d o')"
    using k by (auto simp: frame_ok_def list_all2_conv_all_nth)
  from nth show "settled skip stm d o'"
  proof
    assume "ops ! k = Some o'"
    with k len have "Some o' \<in> set ops" by (metis nth_mem)
    from next_operand_None [OF assms(3) this] have "dict_in o' d" .
    then obtain j where "(o', j) \<in> set d" by (auto simp: dict_in_keys)
    with ok show ?thesis by (auto simp: dict_ok_def)
  qed simp
qed

lemma pop_inv:
  assumes ok: "dict_ok skip stm d" and st: "stack_ok skip stm d None ((e, ops) # rest)"
    and nx: "next_operand d ops 0 = None"
  shows "dict_ok skip stm (if \<not> isinstance e (''Label'' # skip) then dict_set d e (length d) else d)
     \<and> stack_ok skip stm (if \<not> isinstance e (''Label'' # skip) then dict_set d e (length d) else d)
         None rest"
proof (cases "skipped skip e")
  case True
  from st have "frame_ok skip stm d None (e, ops)" by simp
  from frame_settled [OF ok this nx] True have "settled skip stm d e"
    by (subst settled_iff) blast
  with st have "stack_ok skip stm d None rest" by (auto intro: stack_ok_upper)
  with True ok show ?thesis by (simp add: skipped_def)
next
  case False
  from st have new: "\<not> dict_in e d" and fr: "frame_ok skip stm d None (e, ops)"
    and below: "\<forall>g \<in> set rest. fst g \<noteq> e" and rest: "stack_ok skip stm d (Some e) rest"
    by auto
  from new have eq: "dict_set d e (length d) = d @ [(e, length d)]"
    by (simp add: dict_set_new dict_in_keys)
  have ok': "dict_ok skip stm (d @ [(e, length d)])"
    using ok new False frame_settled [OF ok fr nx] by (rule dict_ok_append)
  moreover from ok' have "settled skip stm (d @ [(e, length d)]) e"
    by (auto simp: dict_ok_def)
  with stack_ok_mono [OF rest below, of "length d"]
  have "stack_ok skip stm (d @ [(e, length d)]) None rest"
    by (rule stack_ok_upper)
  ultimately show ?thesis using False eq by (simp add: skipped_def)
qed

lemma push_inv:
  assumes st: "stack_ok skip stm d None ((e, ops) # rest)"
    and nx: "next_operand d ops 0 = Some (i, o')"
  shows "stack_ok skip stm d None ((o', map Some (getops stm o')) # (e, ops[i := None]) # rest)"
proof -
  from next_operand_Some [OF nx] have i: "i < length ops" "ops ! i = Some o'" "\<not> dict_in o' d"
    by simp_all
  from st have fr: "frame_ok skip stm d None (e, ops)" and new: "\<not> dict_in e d"
    and below: "\<forall>g \<in> set rest. expr_nodes e < expr_nodes (fst g)"
    and rest: "stack_ok skip stm d (Some e) rest"
    by auto
  from fr have len: "length ops = length (getops stm e)"
    and nth: "\<And>k. k < length ops \<Longrightarrow>
        ops ! k = Some (getops stm e ! k) \<or> (ops ! k = None \<and> settled skip stm d (getops stm e ! k))"
    by (auto simp: frame_ok_def list_all2_conv_all_nth)
  from nth [OF i(1)] i(2) have o: "getops stm e ! i = o'" by auto
  with i(1) len have "o' \<in> set (getops stm e)" by (metis nth_mem)
  then have small: "expr_nodes o' < expr_nodes e" by (rule getops_smaller)
  have "frame_ok skip stm d None (o', map Some (getops stm o'))"
    by (simp add: frame_ok_def list_all2_conv_all_nth)
  moreover have "frame_ok skip stm d (Some o') (e, ops[i := None])"
    unfolding frame_ok_def list_all2_conv_all_nth
  proof (intro conjI allI impI)
    show "length (snd (e, ops[i := None])) = length (getops stm (fst (e, ops[i := None])))"
      using len by simp
  next
    fix k assume "k < length (snd (e, ops[i := None]))"
    then have k: "k < length ops" by simp
    show "snd (e, ops[i := None]) ! k = Some (getops stm (fst (e, ops[i := None])) ! k) \<or>
          (snd (e, ops[i := None]) ! k = None \<and>
           (settled skip stm d (getops stm (fst (e, ops[i := None])) ! k) \<or>
            Some o' = Some (getops stm (fst (e, ops[i := None])) ! k)))"
      using nth [OF k] k o by (cases "k = i") auto
  qed
  ultimately show ?thesis
    using i(3) new below rest small by auto
qed

lemma traverse_inv:
  "dict_ok skip stm d \<Longrightarrow> stack_ok skip stm d None stack \<Longrightarrow>
     dict_ok skip stm (traverse skip stm stack d)"
proof (induction skip stm stack d rule: traverse.induct)
  case (1 skip stm d)
  then show ?case by simp
next
  case (2 skip stm expr ops stack d)
  show ?case
  proof (cases "next_operand d ops 0")
    case None
    from pop_inv [OF "2.prems"(1) "2.prems"(2) None] "2.IH"(1) [OF None] None
    show ?thesis by simp
  next
    case (Some x)
    obtain i o' where x: "x = (i, o')" by (cases x)
    with Some have nx: "next_operand d ops 0 = Some (i, o')" by simp
    from "2.IH"(2) [OF Some x [symmetric] "2.prems"(1) push_inv [OF "2.prems"(2) nx]] nx
    show ?thesis by simp
  qed
qed

lemma count_nodes_ok:
  "dict_ok skip stm (count_nodes_with_unique_post_traversal expr skip stm)"
  unfolding count_nodes_with_unique_post_traversal_def
  by (rule traverse_inv) (simp_all add: dict_ok_def frame_ok_def list_all2_conv_all_nth dict_in_def)

lemma traverse_root_last:
  "dict_ok skip stm d \<Longrightarrow> stack_ok skip stm d None stack \<Longrightarrow> stack \<noteq> [] \<Longrightarrow>
     \<not> skipped skip (fst (last stack)) \<Longrightarrow>
     traverse skip stm stack d \<noteq> [] \<and>
     last (traverse skip stm stack d) =
       (fst (last stack), length (traverse skip stm stack d) - 1)"
proof (induction skip stm stack d rule: traverse.induct)
  case (1 skip stm d)
  then show ?case by simp
next
  case (2 skip stm expr ops stack d)
  show ?case
  proof (cases "next_operand d ops 0")
    case None
    note inv = pop_inv [OF "2.prems"(1) "2.prems"(2) None]
    show ?thesis
    proof (cases "stack = []")
      case True
      from "2.prems"(2) have "\<not> dict_in expr d" by simp
      then have "dict_set d expr (length d) = d @ [(expr, length d)]"
        by (simp add: dict_set_new dict_in_keys)
      with True None "2.prems"(4) show ?thesis by (simp add: skipped_def)
    next
      case False
      with "2.IH"(1) [OF None] inv "2.prems"(4) None show ?thesis by simp
    qed
  next
    case (Some x)
    obtain i o' where x: "x = (i, o')" by (cases x)
    with Some have nx: "next_operand d ops 0 = Some (i, o')" by simp
    let ?new = "(o', map Some (getops stm o')) # (expr, ops[i := None]) # stack"
    have l: "fst (last ((expr, ops) # stack)) = fst (last ?new)" by simp
    have eq: "traverse skip stm ((expr, ops) # stack) d = traverse skip stm ?new d"
      using nx by simp
    from "2.prems"(4) have "\<not> skipped skip (fst (last ?new))"
      unfolding l .
    with "2.IH"(2) [OF Some x [symmetric] "2.prems"(1) push_inv [OF "2.prems"(2) nx]]
    show ?thesis unfolding eq l by blast
  qed
qed

lemma count_nodes_root_last:
  assumes "\<not> isinstance expr (''Label'' # skip)"
  shows "count_nodes_with_unique_post_traversal expr skip stm \<noteq> [] \<and>
     last (count_nodes_with_unique_post_traversal expr skip stm) =
       (expr, length (count_nodes_with_unique_post_traversal expr skip stm) - 1)"
proof -
  have "dict_ok skip stm []" by (simp add: dict_ok_def)
  moreover have "stack_ok skip stm [] None [(expr, map Some (getops stm expr))]"
    by (simp add: frame_ok_def list_all2_conv_all_nth dict_in_def)
  ultimately show ?thesis
    unfolding count_nodes_with_unique_post_traversal_def
    using traverse_root_last [of skip stm "[]" "[(expr, map Some (getops stm expr))]"] assms
    by (simp add: skipped_def)
qed

lemma pop_settled:
  assumes ok: "dict_ok skip stm d" and st: "stack_ok skip stm d None ((e, ops) # rest)"
    and nx: "next_operand d ops 0 = None"
  shows "settled skip stm
     (if \<not> isinstance e (''Label'' # skip) then dict_set d e (length d) else d) e"
proof (cases "skipped skip e")
  case True
  from st have "frame_ok skip stm d None (e, ops)" by simp
  from frame_settled [OF ok this nx] True have "settled skip stm d e"
    by (subst settled_iff) blast
  with True show ?thesis by (simp add: skipped_def)
next
  case False
  from st have "\<not> dict_in e d" by simp
  then have "(e, length d) \<in> set (dict_set d e (length d))"
    by (simp add: dict_set_new dict_in_keys)
  moreover from pop_inv [OF ok st nx] False
  have "dict_ok skip stm (dict_set d e (length d))" by (simp add: skipped_def)
  ultimately have "settled skip stm (dict_set d e (length d)) e"
    by (auto simp: dict_ok_def)
  with False show ?thesis by (simp add: skipped_def)
qed

lemma traverse_covers:
  "dict_ok skip stm d \<Longrightarrow> stack_ok skip stm d None stack \<Longrightarrow> stack \<noteq> [] \<Longrightarrow>
     settled skip stm (traverse skip stm stack d) (fst (last stack))"
proof (induction skip stm stack d rule: traverse.induct)
  case (1 skip stm d)
  then show ?case by simp
next
  case (2 skip stm expr ops stack d)
  show ?case
  proof (cases "next_operand d ops 0")
    case None
    note inv = pop_inv [OF "2.prems"(1) "2.prems"(2) None]
    show ?thesis
    proof (cases "stack = []")
      case True
      with pop_settled [OF "2.prems"(1) "2.prems"(2) None] None show ?thesis by simp
    next
      case False
      with "2.IH"(1) [OF None] inv None show ?thesis by simp
    qed
  next
    case (Some x)
    obtain i o' where x: "x = (i, o')" by (cases x)
    with Some have nx: "next_operand d ops 0 = Some (i, o')" by simp
    let ?new = "(o', map Some (getops stm o')) # (expr, ops[i := None]) # stack"
    have l: "fst (last ((expr, ops) # stack)) = fst (last ?new)" by simp
    have eq: "traverse skip stm ((expr, ops) # stack) d = traverse skip stm ?new d"
      using nx by simp
    from "2.IH"(2) [OF Some x [symmetric] "2.prems"(1) push_inv [OF "2.prems"(2) nx]]
    show ?thesis unfolding eq l by blast
  qed
qed

lemma count_nodes_covers:
  assumes "x \<in> set (subexprs stm expr)" and "\<not> isinstance x (''Label'' # skip)"
  shows "\<exists>j. map_of (count_nodes_with_unique_post_traversal expr skip stm) x = Some j"
proof -
  have "dict_ok skip stm []" by (simp add: dict_ok_def)
  moreover have "stack_ok skip stm [] None [(expr, map Some (getops stm expr))]"
    by (simp add: frame_ok_def list_all2_conv_all_nth dict_in_def)
  ultimately have "settled skip stm (count_nodes_with_unique_post_traversal expr skip stm) expr"
    unfolding count_nodes_with_unique_post_traversal_def
    using traverse_covers [of skip stm "[]" "[(expr, map Some (getops stm expr))]"] by simp
  with assms have "dict_in x (count_nodes_with_unique_post_traversal expr skip stm)"
    by (auto simp: settled_def skipped_def)
  then show ?thesis by (simp add: dict_in_def)
qed

lemma step_deterministic: "step skip stm s t \<Longrightarrow> step skip stm s t' \<Longrightarrow> t = t'"
  by (auto elim!: step.cases)

lemma step_final: "\<not> step skip stm ([], d) t"
  by (auto elim: step.cases)

lemma traverse_run:
  "(step skip stm)\<^sup>*\<^sup>* (stack, d) ([], traverse skip stm stack d)"
proof (induction skip stm stack d rule: traverse.induct)
  case (1 skip stm d)
  then show ?case by simp
next
  case (2 skip stm expr ops stack d)
  show ?case
  proof (cases "next_operand d ops 0")
    case None
    from step.pop [OF None, of skip stm expr stack] "2.IH"(1) [OF None] None
    show ?thesis by (simp add: converse_rtranclp_into_rtranclp)
  next
    case (Some x)
    obtain i o' where x: "x = (i, o')" by (cases x)
    with Some have nx: "next_operand d ops 0 = Some (i, o')" by simp
    from step.push [OF nx, of skip stm expr stack] "2.IH"(2) [OF Some x [symmetric]] nx
    show ?thesis by (simp add: converse_rtranclp_into_rtranclp)
  qed
qed

lemma run_unique:
  "(step skip stm)\<^sup>*\<^sup>* s ([], d1) \<Longrightarrow> (step skip stm)\<^sup>*\<^sup>* s ([], d2) \<Longrightarrow> d1 = d2"
proof (induction rule: converse_rtranclp_induct)
  case base
  then show ?case by (auto elim: converse_rtranclpE simp: step_final)
next
  case (step y z)
  from step.prems show ?case
  proof (cases rule: converse_rtranclpE)
    case base
    with step.hyps(1) show ?thesis by (simp add: step_final)
  next
    case (step z')
    with step_deterministic [OF step.hyps(1)] have "z' = z" by simp
    with step step.IH show ?thesis by simp
  qed
qed

lemma enumerator_run_count_nodes:
  "enumerator_run expr skip stm (count_nodes_with_unique_post_traversal expr skip stm)"
  unfolding enumerator_run_def count_nodes_with_unique_post_traversal_def
  by (rule traverse_run)

lemma count_nodes_map_of:
  assumes "(e, i) \<in> set (count_nodes_with_unique_post_traversal expr skip stm)"
  shows "map_of (count_nodes_with_unique_post_traversal expr skip stm) e = Some i"
  using assms count_nodes_ok [of skip stm expr] by (simp add: dict_ok_def)

text \<open>
  Claim C1, as amended.  The enumerator returns a dictionary whose values are
  \<open>0, ..., N-1\<close> in insertion order and whose keys are distinct and not of a
  skipped class; for every key, every operand that the traversal descends into
  (\<^verbatim>\<open>getops\<close>: the operands of a non-terminal, none for a terminal modifier
  without free indices when \<^verbatim>\<open>skip_terminal_modifiers\<close> is set) and that is itself
  a key has a strictly smaller index.
\<close>

theorem post_order_indices:
  "map snd (count_nodes_with_unique_post_traversal expr skip stm) =
     [0..<length (count_nodes_with_unique_post_traversal expr skip stm)] \<and>
   distinct (map fst (count_nodes_with_unique_post_traversal expr skip stm)) \<and>
   (\<forall>(e, i) \<in> set (count_nodes_with_unique_post_traversal expr skip stm).
      \<not> isinstance e (''Label'' # skip) \<and>
      (\<forall>o' \<in> set (getops stm e). \<forall>j.
         map_of (count_nodes_with_unique_post_traversal expr skip stm) o' = Some j \<longrightarrow> j < i))"
proof -
  let ?d = "count_nodes_with_unique_post_traversal expr skip stm"
  have ok: "dict_ok skip stm ?d" by (rule count_nodes_ok)
  have "j < i" if "(e, i) \<in> set ?d" and "o' \<in> set (getops stm e)" and "map_of ?d o' = Some j"
    for e i o' j
  proof -
    from that(3) have "dict_in o' ?d" by (simp add: dict_in_def)
    then obtain k where k: "(o', k) \<in> set ?d" by (auto simp: dict_in_keys)
    with ok have "\<not> skipped skip o'" by (auto simp: dict_ok_def)
    with ok that(1,2) obtain j' where j': "j' < i" "(o', j') \<in> set ?d"
      by (fastforce simp: dict_ok_def)
    from count_nodes_map_of [OF j'(2)] that(3) have "j' = j" by simp
    with j'(1) show ?thesis by simp
  qed
  moreover have "\<not> isinstance e (''Label'' # skip)" if "(e, i) \<in> set ?d" for e i
    using ok that by (auto simp: dict_ok_def skipped_def)
  ultimately show ?thesis
    using ok by (auto simp: dict_ok_def)
qed

lemma ex_sum_count:
  "count_nodes_with_unique_post_traversal ex_sum [] False =
     [(ex_a, 0), (ex_b, 1), (ex_ab, 2), (ex_sum, 3)]"
  by (simp add: count_nodes_with_unique_post_traversal_def getops_def dict_in_def isinstance_def
      ex_sum_def ex_ab_def ex_a_def ex_b_def)

lemma ex_ra_sum_count:
  "count_nodes_with_unique_post_traversal ex_ra_sum [] True =
     [(ex_ra, 0), (ex_a, 1), (ex_ra_sum, 2)]"
  by (simp add: count_nodes_with_unique_post_traversal_def getops_def dict_in_def isinstance_def
      ex_ra_sum_def ex_ra_def ex_a_def)

theorem post_order_indices_witness:
  "(ex_ab, 2) \<in> set (count_nodes_with_unique_post_traversal ex_sum [] False) \<and>
   ex_a \<in> set (getops False ex_ab) \<and>
   map_of (count_nodes_with_unique_post_traversal ex_sum [] False) ex_a = Some 0 \<and>
   (0::nat) < 2 \<and> \<not> isinstance ex_ab [''Label'']"
proof -
  have m: "(ex_ab, 2) \<in> set (count_nodes_with_unique_post_traversal ex_sum [] False)"
    by (simp add: ex_sum_count)
  have g: "ex_a \<in> set (getops False ex_ab)"
    by (simp add: getops_def ex_ab_def)
  have l: "map_of (count_nodes_with_unique_post_traversal ex_sum [] False) ex_a = Some 0"
    by (simp add: ex_sum_count)
  from post_order_indices [of ex_sum "[]" False] m g l
  have "(0::nat) < 2 \<and> \<not> isinstance ex_ab [''Label'']" by blast
  with m g l show ?thesis by blast
qed

text \<open>
  The claim as stated, with every operand of a node, fails with
  \<^verbatim>\<open>skip_terminal_modifiers\<close> set: in \<open>a('+') + a\<close> the restriction is numbered 0
  without descending into it, and its operand \<open>a\<close> is numbered 1 afterwards.
\<close>

theorem post_order_operands_counterexample:
  "map_of (count_nodes_with_unique_post_traversal ex_ra_sum [] True) ex_ra = Some 0 \<and>
   \<not> isinstance ex_ra [''Label''] \<and>
   ufl_operands ex_ra = [ex_a] \<and>
   map_of (count_nodes_with_unique_post_traversal ex_ra_sum [] True) ex_a = Some 1 \<and>
   \<not> (1::nat) < 0"
  by (simp add: ex_ra_sum_count) (simp add: ex_ra_def ex_a_def isinstance_def)

text \<open>
  Claim C6.  Two runs of the loop on the same expression with the same skip
  arguments end with the same dictionary, which is the one the enumerator
  returns: every expression has the same index, or none, in both.
\<close>

theorem enumerator_deterministic:
  assumes "enumerator_run expr skip stm d1" and "enumerator_run expr skip stm d2"
  shows "d1 = d2 \<and> d1 = count_nodes_with_unique_post_traversal expr skip stm \<and>
         (\<forall>e. map_of d1 e = map_of d2 e)"
proof -
  from assms have "d1 = d2"
    unfolding enumerator_run_def by (rule run_unique)
  moreover from assms(1) enumerator_run_count_nodes [of expr skip stm]
  have "d1 = count_nodes_with_unique_post_traversal expr skip stm"
    unfolding enumerator_run_def by (rule run_unique)
  ultimately show ?thesis by simp
qed

theorem enumerator_deterministic_witness:
  "enumerator_run ex_sum [] False [(ex_a, 0), (ex_b, 1), (ex_ab, 2), (ex_sum, 3)] \<and>
   [(ex_a, 0), (ex_b, 1), (ex_ab, 2), (ex_sum, 3)] =
     count_nodes_with_unique_post_traversal ex_sum [] False"
proof -
  have r: "enumerator_run ex_sum [] False [(ex_a, 0), (ex_b, 1), (ex_ab, 2), (ex_sum, 3)]"
    using enumerator_run_count_nodes [of ex_sum "[]" False] by (simp add: ex_sum_count)
  from enumerator_deterministic [OF r r] r show ?thesis by blast
qed

section \<open>Properties of the scalar rebuilder\<close>

lemma rebuild_loop_append:
  "rebuild_loop C d V W (pre @ rest) =
     (case rebuild_loop C d V W pre of Inl e \<Rightarrow> Inl e | Inr W' \<Rightarrow> rebuild_loop C d V W' rest)"
  by (induction pre arbitrary: W) (auto split: sum.splits)

lemma store_length: "store W h zs = Inr W' \<Longrightarrow> length W' = length W"
  by (induction W h zs rule: store.induct) (auto split: if_splits)

lemma store_keeps:
  "store W h zs = Inr W' \<Longrightarrow> s < length W \<Longrightarrow> W ! s \<noteq> None \<Longrightarrow> W' ! s = W ! s"
proof (induction W h zs rule: store.induct)
  case (1 W handled)
  then show ?case by simp
next
  case (2 W handled t w rest)
  show ?case
  proof (cases "W ! t = None")
    case True
    with 2 have "t \<noteq> s" by auto
    with 2 True show ?thesis by (auto split: if_splits)
  next
    case False
    with 2 show ?thesis by (auto split: if_splits)
  qed
qed

lemma store_fresh:
  "store W h zs = Inr W' \<Longrightarrow> (s, w) \<in> set zs \<Longrightarrow> s < length W \<and> (W ! s = None \<or> s \<in> h)"
proof (induction W h zs rule: store.induct)
  case (1 W handled)
  then show ?case by simp
next
  case (2 W handled t w' rest)
  from "2.prems"(1) have t: "t < length W" by (auto split: if_splits)
  show ?case
  proof (cases "s = t")
    case True
    with "2.prems"(1) t show ?thesis by (auto split: if_splits)
  next
    case False
    with "2.prems"(2) have mem: "(s, w) \<in> set rest" by simp
    show ?thesis
    proof (cases "W ! t = None")
      case True
      with "2.prems"(1) t have "store (W[t := Some w']) (insert t handled) rest = Inr W'" by simp
      from "2.IH"(1) [OF _ True this mem] t
      have "s < length W \<and> ((W[t := Some w']) ! s = None \<or> s \<in> insert t handled)" by simp
      with True t show ?thesis by (cases "s = t") auto
    next
      case F: False
      with "2.prems"(1) t have h: "t \<in> handled" and "store W handled rest = Inr W'"
        by (auto split: if_splits)
      from "2.IH"(2) [OF _ F h this(2) mem] t show ?thesis by simp
    qed
  qed
qed

lemma store_result:
  "store W h zs = Inr W' \<Longrightarrow> s < length W \<Longrightarrow>
     W' ! s = (if W ! s \<noteq> None then W ! s else map_of zs s)"
proof (induction W h zs rule: store.induct)
  case (1 W handled)
  then show ?case by auto
next
  case (2 W handled t w rest)
  from "2.prems"(1) have t: "t < length W" by (auto split: if_splits)
  show ?case
  proof (cases "W ! t = None")
    case True
    with "2.prems"(1) t have st: "store (W[t := Some w]) (insert t handled) rest = Inr W'" by simp
    from "2.IH"(1) [OF _ True st] t "2.prems"(2)
    have "W' ! s = (if (W[t := Some w]) ! s \<noteq> None then (W[t := Some w]) ! s else map_of rest s)"
      by simp
    with True t "2.prems"(2) show ?thesis by (cases "s = t") auto
  next
    case F: False
    with "2.prems"(1) t have h: "t \<in> handled" and st: "store W handled rest = Inr W'"
      by (auto split: if_splits)
    from "2.IH"(2) [OF _ F h st "2.prems"(2)] F t show ?thesis by auto
  qed
qed

lemma rebuild_node_keeps:
  assumes "rebuild_node C d V W iv = Inr W'"
  shows "length W' = length W \<and> (\<forall>s<length W. W ! s \<noteq> None \<longrightarrow> W' ! s = W ! s)"
proof (cases "all_filled W (V ! fst iv)")
  case (Inl e)
  with assms show ?thesis by (simp add: rebuild_node_def split: if_splits)
next
  case (Inr b)
  show ?thesis
  proof (cases b)
    case True
    with Inr assms show ?thesis by (simp add: rebuild_node_def split: if_splits)
  next
    case False
    with Inr assms obtain ws where "store W {} (zip (V ! fst iv) ws) = Inr W'"
      by (auto simp: rebuild_node_def Let_def split: if_splits sum.splits)
    then show ?thesis by (simp add: store_length store_keeps)
  qed
qed

lemma rebuild_loop_keeps:
  "rebuild_loop C d V W ns = Inr W' \<Longrightarrow>
     length W' = length W \<and> (\<forall>s<length W. W ! s \<noteq> None \<longrightarrow> W' ! s = W ! s)"
proof (induction ns arbitrary: W)
  case Nil
  then show ?case by simp
next
  case (Cons iv ns)
  then obtain W1 where n: "rebuild_node C d V W iv = Inr W1"
    and l: "rebuild_loop C d V W1 ns = Inr W'"
    by (auto split: sum.splits)
  from rebuild_node_keeps [OF n] Cons.IH [OF l] show ?case by auto
qed




text \<open>
  Claim C4.  When the rebuild reaches an operator node (not a modified terminal)
  that is not skipped, the symbols and stored expressions of its operands are
  fetched, and the reconstruction rule returns a list whose length differs from
  the length of the node's symbol sequence, then the node, and with it
  \<^verbatim>\<open>rebuild_with_scalar_subexpressions\<close>, raises \<^verbatim>\<open>RuntimeError\<close>.
\<close>

theorem arity_mismatch_raises:
  assumes "compute_symbols C G = Inr (V, n_symbols)"
    and "nodes G = pre @ (i, v) # post"
    and "rebuild_loop C (e2i G) V (replicate n_symbols None) pre = Inr W"
    and "\<not> is_modified_terminal C (expression v)"
    and "i < length V" and "all_filled W (V ! i) = Inr False"
    and "operand_symbols (e2i G) V (ufl_operands (expression v)) = Inr sops"
    and "fetch_all W sops = Inr wops"
    and "reconstruct C (expression v) wops = Inr ws"
    and "length ws \<noteq> length (V ! i)"
  shows "rebuild_node C (e2i G) V W (i, v) = Inl RuntimeError \<and>
         rebuild_with_scalar_subexpressions C G = Inl RuntimeError"
proof -
  from assms(4,7-10) have "node_scalars C (e2i G) V W (expression v) (V ! i) = Inl RuntimeError"
    by (auto simp: node_scalars_def)
  with assms(5,6) have n: "rebuild_node C (e2i G) V W (i, v) = Inl RuntimeError"
    by (simp add: rebuild_node_def)
  with assms(2,3) have "rebuild_loop C (e2i G) V (replicate n_symbols None) (nodes G) = Inl RuntimeError"
    by (simp add: rebuild_loop_append)
  with assms(1) n show ?thesis
    by (simp add: rebuild_with_scalar_subexpressions_def)
qed

theorem arity_mismatch_raises_witness:
  "compute_symbols ex_collab_short ex_graph_ab = Inr ([[0], [1], [2]], 3) \<and>
   nodes ex_graph_ab = [(0, \<lparr>expression = ex_a, target = False\<rparr>),
      (1, \<lparr>expression = ex_b, target = False\<rparr>)] @ (2, \<lparr>expression = ex_ab, target = True\<rparr>) # [] \<and>
   \<not> is_modified_terminal ex_collab_short ex_ab \<and>
   reconstruct ex_collab_short ex_ab [[Some ex_a], [Some ex_b]] = Inr [] \<and>
   length ([] :: expr list) \<noteq> length ([[0], [1], [2 :: nat]] ! 2) \<and>
   rebuild_with_scalar_subexpressions ex_collab_short ex_graph_ab = Inl RuntimeError"
proof -
  let ?C = ex_collab_short and ?G = ex_graph_ab
  let ?v = "\<lparr>expression = ex_ab, target = True\<rparr>"
  let ?pre = "[(0::nat, \<lparr>expression = ex_a, target = False\<rparr>), (1, \<lparr>expression = ex_b, target = False\<rparr>)]"
  let ?V = "[[0], [1], [2::nat]]"
  let ?W = "[Some ex_a, Some ex_b, None]"
  have 1: "compute_symbols ?C ?G = Inr (?V, 3)"
    by (simp add: ex_collab_short_def ex_collab_def ex_graph_ab_def)
  have 2: "nodes ?G = ?pre @ (2, ?v) # []"
    by (simp add: ex_graph_ab_def)
  have 3: "rebuild_loop ?C (e2i ?G) ?V (replicate 3 None) ?pre = Inr ?W"
    by (simp add: rebuild_node_def node_scalars_def ex_collab_short_def ex_collab_def
        ex_a_def ex_b_def numeral_3_eq_3)
  have 4: "\<not> is_modified_terminal ?C (expression ?v)"
    by (simp add: ex_collab_short_def ex_collab_def ex_ab_def)
  have 5: "2 < length ?V" by simp
  have 6: "all_filled ?W (?V ! 2) = Inr False" by simp
  have 7: "operand_symbols (e2i ?G) ?V (ufl_operands (expression ?v)) = Inr [[0], [1]]"
    by (simp add: ex_graph_ab_def ex_ab_def ex_a_def ex_b_def isinstance_def)
  have 8: "fetch_all ?W [[0], [1]] = Inr [[Some ex_a], [Some ex_b]]" by simp
  have 9: "reconstruct ?C (expression ?v) [[Some ex_a], [Some ex_b]] = Inr []"
    by (simp add: ex_collab_short_def ex_collab_def)
  have 10: "length ([] :: expr list) \<noteq> length (?V ! 2)" by simp
  from arity_mismatch_raises [OF 1 2 3 4 5 6 7 8 9 10] 1 2 4 9 10 show ?thesis
    by simp
qed


text \<open>
  Claim C5.  A slot of \<open>W\<close> that is filled keeps its expression through the rest of
  the rebuild.  When the store loop of a node returns, every symbol it was given
  had an empty slot when the node started, and a slot it filled holds the first
  expression produced for its symbol.  A write to a filled slot raises
  \<^verbatim>\<open>AssertionError\<close> unless the symbol is in \<^verbatim>\<open>handled\<close>, the symbols this node
  has stored; then the slot is left as it is.
\<close>

theorem table_write_once:
  "(rebuild_loop C d V W ns = Inr W' \<longrightarrow>
      length W' = length W \<and> (\<forall>s<length W. W ! s \<noteq> None \<longrightarrow> W' ! s = W ! s)) \<and>
   (store W {} zs = Inr W'' \<longrightarrow>
      (\<forall>(s, w) \<in> set zs. s < length W \<and> W ! s = None) \<and>
      (\<forall>s<length W. W'' ! s = (if W ! s \<noteq> None then W ! s else map_of zs s))) \<and>
   (t < length W \<and> W ! t \<noteq> None \<and> t \<notin> h \<longrightarrow>
      store W h ((t, w) # rest) = Inl AssertionError) \<and>
   (t < length W \<and> W ! t \<noteq> None \<and> t \<in> h \<longrightarrow>
      store W h ((t, w) # rest) = store W h rest)"
proof (intro conjI impI)
  assume "rebuild_loop C d V W ns = Inr W'"
  from rebuild_loop_keeps [OF this]
  show "length W' = length W" and "\<forall>s<length W. W ! s \<noteq> None \<longrightarrow> W' ! s = W ! s"
    by simp_all
next
  assume st: "store W {} zs = Inr W''"
  show "\<forall>(s, w) \<in> set zs. s < length W \<and> W ! s = None"
    using store_fresh [OF st] by auto
  show "\<forall>s<length W. W'' ! s = (if W ! s \<noteq> None then W ! s else map_of zs s)"
    using store_result [OF st] by blast
next
  assume "t < length W \<and> W ! t \<noteq> None \<and> t \<notin> h"
  then show "store W h ((t, w) # rest) = Inl AssertionError" by auto
next
  assume "t < length W \<and> W ! t \<noteq> None \<and> t \<in> h"
  then show "store W h ((t, w) # rest) = store W h rest" by auto
qed

theorem table_write_once_witness:
  "rebuild_loop ex_collab (e2i ex_graph_ab) [[0], [1], [2]] [Some ex_b, None, None]
     (nodes ex_graph_ab) = Inr [Some ex_b, Some ex_b, Some (Operator ''Product'' False [] [] [ex_b, ex_b])] \<and>
   store [None, None] {} [(0, ex_a), (0, ex_b)] = Inr [Some ex_a, None] \<and>
   store [Some ex_a] {} [(0, ex_b)] = Inl AssertionError \<and>
   store [Some ex_a] {0} [(0, ex_b)] = Inr [Some ex_a]"
proof -
  let ?W' = "[Some ex_b, Some ex_b, Some (Operator ''Product'' False [] [] [ex_b, ex_b])]"
  have l: "rebuild_loop ex_collab (e2i ex_graph_ab) [[0], [1], [2]] [Some ex_b, None, None]
     (nodes ex_graph_ab) = Inr ?W'"
    by (simp add: ex_graph_ab_def rebuild_node_def node_scalars_def ex_collab_def isinstance_def
        ex_ab_def ex_a_def ex_b_def)
  have s: "store [None, None] {} [(0, ex_a), (0, ex_b)] = Inr [Some ex_a, None]" by simp
  have a: "(0::nat) < length [Some ex_a] \<and> [Some ex_a] ! 0 \<noteq> None \<and> (0::nat) \<notin> {}" by simp
  have b: "(0::nat) < length [Some ex_a] \<and> [Some ex_a] ! 0 \<noteq> None \<and> (0::nat) \<in> {0}" by simp
  from table_write_once [of ex_collab "e2i ex_graph_ab" "[[0], [1], [2]]" "[Some ex_b, None, None]"
      "nodes ex_graph_ab" ?W' "[]" "[Some ex_b, None, None]" 0 "{}" ex_a "[]"] l
  have 1: "?W' ! 0 = Some ex_b" by simp
  from table_write_once [of ex_collab "[]" "[]" "[None, None]" "[]" "[None, None]"
      "[(0, ex_a), (0, ex_b)]" "[Some ex_a, None]" 0 "{}" ex_a "[]"] s
  have 2: "[Some ex_a, None] ! 0 = map_of [(0::nat, ex_a), (0, ex_b)] 0" by simp
  from table_write_once [of ex_collab "[]" "[]" "[Some ex_a]" "[]" "[Some ex_a]"
      "[]" "[Some ex_a]" 0 "{}" ex_b "[]"] a
  have 3: "store [Some ex_a] {} [(0, ex_b)] = Inl AssertionError" by blast
  from table_write_once [of ex_collab "[]" "[]" "[Some ex_a]" "[]" "[Some ex_a]"
      "[]" "[Some ex_a]" 0 "{0}" ex_b "[]"] b
  have 4: "store [Some ex_a] {0} [(0, ex_b)] = Inr [Some ex_a]" by simp
  from l s 3 4 show ?thesis by blast
qed




section \<open>Properties of the graphs\<close>

lemma enumerate_keys:
  "map snd d = [0..<length d] \<Longrightarrow> enumerate 0 (map fst d) = map (\<lambda>p. (snd p, fst p)) d"
proof -
  assume a: "map snd d = [0..<length d]"
  have "enumerate 0 (map fst d) = zip [0..<length d] (map fst d)"
    by (simp add: enumerate_eq_zip)
  also have "\<dots> = zip (map snd d) (map fst d)" using a by simp
  also have "\<dots> = map (\<lambda>p. (snd p, fst p)) d"
    by (induction d) simp_all
  finally show ?thesis .
qed

lemma fold_add_node:
  "distinct (map fst ivs) \<Longrightarrow>
   fst ` set ivs \<inter> (fst ` set (nodes G) \<union> fst ` set (out_edges G) \<union> fst ` set (in_edges G)) = {} \<Longrightarrow>
   fold (\<lambda>(i, v) G. add_node G i (mk v)) ivs G =
     G\<lparr>nodes := nodes G @ map (\<lambda>p. (fst p, mk (snd p))) ivs,
       out_edges := out_edges G @ map (\<lambda>p. (fst p, [])) ivs,
       in_edges := in_edges G @ map (\<lambda>p. (fst p, [])) ivs\<rparr>"
proof (induction ivs arbitrary: G)
  case Nil
  then show ?case by simp
next
  case (Cons iv ivs)
  obtain i v where iv: "iv = (i, v)" by (cases iv)
  from Cons.prems iv have fresh: "i \<notin> fst ` set (nodes G)" "i \<notin> fst ` set (out_edges G)"
    "i \<notin> fst ` set (in_edges G)"
    by auto
  then have a: "add_node G i (mk v) =
      G\<lparr>nodes := nodes G @ [(i, mk v)], out_edges := out_edges G @ [(i, [])],
        in_edges := in_edges G @ [(i, [])]\<rparr>"
    by (simp add: add_node_def dict_set_new)
  have d: "distinct (map fst ivs)" using Cons.prems(1) by simp
  have "fst ` set ivs \<inter> (fst ` set (nodes (add_node G i (mk v))) \<union>
      fst ` set (out_edges (add_node G i (mk v))) \<union> fst ` set (in_edges (add_node G i (mk v)))) = {}"
    using Cons.prems iv unfolding a by auto
  from Cons.IH [OF d this] show ?case
    unfolding iv by (simp add: a)
qed

lemma distinct_snd_unique:
  "distinct (map snd xs) \<Longrightarrow> (a, i) \<in> set xs \<Longrightarrow> (b, i) \<in> set xs \<Longrightarrow> a = b"
  by (induction xs) force+

lemma dict_set_present:
  "distinct (map fst xs) \<Longrightarrow> k \<in> fst ` set xs \<Longrightarrow>
     dict_set xs k v = map (\<lambda>p. if fst p = k then (k, v) else p) xs"
proof (induction xs)
  case Nil
  then show ?case by simp
next
  case (Cons x xs)
  obtain k' w where x: "x = (k', w)" by (cases x)
  show ?case
  proof (cases "k' = k")
    case True
    with Cons.prems x have "k \<notin> fst ` set xs" by auto
    then have "map (\<lambda>p. if fst p = k then (k, v) else p) xs = xs"
      by (induction xs) auto
    with True x show ?thesis by simp
  next
    case False
    with Cons x show ?thesis by auto
  qed
qed

lemma count_nodes_skipped_root:
  assumes "isinstance expr (''Label'' # skip)"
  shows "map_of (count_nodes_with_unique_post_traversal expr skip stm) expr = None"
proof (rule ccontr)
  assume "map_of (count_nodes_with_unique_post_traversal expr skip stm) expr \<noteq> None"
  then obtain i where "(expr, i) \<in> set (count_nodes_with_unique_post_traversal expr skip stm)"
    by (auto dest: map_of_SomeD)
  with count_nodes_ok [of skip stm expr] assms show False
    by (auto simp: dict_ok_def skipped_def)
qed

lemma build_graph_vertices_eq:
  assumes "\<not> isinstance expr (''Label'' # skip)"
  shows "build_graph_vertices expr skip stm =
     Inr (vertices_graph (count_nodes_with_unique_post_traversal expr skip stm))"
proof -
  let ?d = "count_nodes_with_unique_post_traversal expr skip stm"
  let ?n = "length ?d"
  have ok: "dict_ok skip stm ?d" by (rule count_nodes_ok)
  then have vals: "map snd ?d = [0..<?n]" and keys: "distinct (map fst ?d)"
    by (simp_all add: dict_ok_def)
  from count_nodes_root_last [OF assms, of stm]
  have ne: "?d \<noteq> []" and last: "last ?d = (expr, ?n - 1)" by simp_all
  then have mem: "(expr, ?n - 1) \<in> set ?d" by (metis last_in_set)
  from count_nodes_map_of [OF mem] have tgt: "map_of ?d expr = Some (?n - 1)" .
  have "sorted (map snd ?d)" using vals by simp
  then have srt: "sort_key snd ?d = ?d" by (rule sort_key_id_if_sorted)
  let ?ivs = "map (\<lambda>p. (snd p, fst p)) ?d"
  have en: "enumerate 0 (map fst (sort_key snd ?d)) = ?ivs"
    using enumerate_keys [OF vals] srt by simp
  have dv: "distinct (map snd ?d)" using vals by simp
  have dk: "distinct (map fst ?ivs)" using vals by (simp add: comp_def)
  let ?G0 = "fold (\<lambda>(i, v) G. add_node G i \<lparr>expression = v, target = False\<rparr>) ?ivs
               ((init :: (nat, node_attrs) ExpressionGraph)\<lparr>e2i := ?d\<rparr>)"
  have G0: "?G0 = \<lparr>nodes = map (\<lambda>p. (snd p, \<lparr>expression = fst p, target = False\<rparr>)) ?d,
      out_edges = map (\<lambda>p. (snd p, [])) ?d, in_edges = map (\<lambda>p. (snd p, [])) ?d, e2i = ?d\<rparr>"
    using fold_add_node [OF dk, of "init\<lparr>e2i := ?d\<rparr>" "\<lambda>v. \<lparr>expression = v, target = False\<rparr>"]
    by (simp add: init_def comp_def)
  have nk: "map fst (nodes ?G0) = map snd ?d" by (simp add: G0 comp_def)
  with vals have dn: "distinct (map fst (nodes ?G0))" by simp
  have memn: "(?n - 1, \<lparr>expression = expr, target = False\<rparr>) \<in> set (nodes ?G0)"
    using mem by (force simp: G0)
  with dn have look: "map_of (nodes ?G0) (?n - 1) = Some \<lparr>expression = expr, target = False\<rparr>"
    by simp
  have "?n - 1 \<in> fst ` set (nodes ?G0)" using memn by force
  from dict_set_present [OF dn this]
  have upd: "dict_set (nodes ?G0) (?n - 1) \<lparr>expression = expr, target = True\<rparr> =
      map (\<lambda>p. (snd p, \<lparr>expression = fst p, target = (snd p = ?n - 1)\<rparr>)) ?d"
  proof -
    have "(if snd p = ?n - 1 then (?n - 1, \<lparr>expression = expr, target = True\<rparr>)
           else (snd p, \<lparr>expression = fst p, target = False\<rparr>)) =
          (snd p, \<lparr>expression = fst p, target = (snd p = ?n - 1)\<rparr>)" if "p \<in> set ?d" for p
    proof (cases "snd p = ?n - 1")
      case True
      with that have "(fst p, ?n - 1) \<in> set ?d" by (metis prod.collapse)
      from distinct_snd_unique [OF dv this mem] have "fst p = expr" .
      with True show ?thesis by simp
    next
      case False
      then show ?thesis by simp
    qed
    with dict_set_present [OF dn \<open>?n - 1 \<in> fst ` set (nodes ?G0)\<close>] show ?thesis
      by (simp add: G0 comp_def)
  qed
  show ?thesis
    unfolding build_graph_vertices_def Let_def en
    using tgt look upd by (simp add: vertices_graph_def G0)
qed

lemma build_graph_vertices_Inr:
  assumes "build_graph_vertices expr skip stm = Inr G"
  shows "\<not> isinstance expr (''Label'' # skip) \<and>
     G = vertices_graph (count_nodes_with_unique_post_traversal expr skip stm)"
proof (cases "isinstance expr (''Label'' # skip)")
  case True
  from count_nodes_skipped_root [OF this, of stm] assms show ?thesis
    by (simp add: build_graph_vertices_def Let_def)
next
  case False
  from build_graph_vertices_eq [OF this, of stm] assms False show ?thesis by simp
qed


lemma add_edge_Inr:
  assumes "add_edge G i j = Inr G'"
  obtains outs where "map_of (out_edges G) i = Some outs"
    and "map_of (out_edges G') = (map_of (out_edges G))(i \<mapsto> outs @ [j])"
    and "nodes G' = nodes G" and "e2i G' = e2i G"
proof -
  from assms obtain outs where o: "map_of (out_edges G) i = Some outs"
    by (auto simp: add_edge_def split: if_splits option.splits)
  with assms have "map_of (out_edges G') = (map_of (out_edges G))(i \<mapsto> outs @ [j])"
    and "nodes G' = nodes G" and "e2i G' = e2i G"
    by (auto simp: add_edge_def Let_def map_of_dict_set split: if_splits option.splits)
  with o that show thesis by blast
qed

lemma add_edges_from_Inr:
  "add_edges_from G i js = Inr G' \<Longrightarrow> map_of (out_edges G) i = Some outs \<Longrightarrow>
     map_of (out_edges G') = (map_of (out_edges G))(i \<mapsto> outs @ js) \<and>
     nodes G' = nodes G \<and> e2i G' = e2i G"
proof (induction js arbitrary: G outs)
  case Nil
  then show ?case by (auto simp: map_upd_triv)
next
  case (Cons j js)
  from Cons.prems(1) obtain G1 where e: "add_edge G i j = Inr G1"
    and r: "add_edges_from G1 i js = Inr G'"
    by (auto split: sum.splits)
  from e Cons.prems(2) have 1: "map_of (out_edges G1) = (map_of (out_edges G))(i \<mapsto> outs @ [j])"
    and 2: "nodes G1 = nodes G" "e2i G1 = e2i G"
    by (auto elim!: add_edge_Inr)
  from 1 have "map_of (out_edges G1) i = Some (outs @ [j])" by simp
  from Cons.IH [OF r this] 1 2 show ?case by (simp add: fun_eq_iff)
qed

lemma add_all_edges_Inr:
  "add_all_edges G (enumerate k V) = Inr G' \<Longrightarrow>
   (\<forall>i. k \<le> i \<and> i < k + length V \<longrightarrow> map_of (out_edges G) i = Some []) \<Longrightarrow>
     nodes G' = nodes G \<and> e2i G' = e2i G \<and>
     (\<forall>i. map_of (out_edges G') i =
        (if k \<le> i \<and> i < k + length V then Some (V ! (i - k)) else map_of (out_edges G) i))"
proof (induction V arbitrary: k G)
  case Nil
  then show ?case by auto
next
  case (Cons x V)
  from Cons.prems(1) obtain G1 where e: "add_edges_from G k x = Inr G1"
    and r: "add_all_edges G1 (enumerate (Suc k) V) = Inr G'"
    by (auto split: sum.splits)
  from Cons.prems(2) have "map_of (out_edges G) k = Some []" by simp
  from add_edges_from_Inr [OF e this]
  have 1: "map_of (out_edges G1) = (map_of (out_edges G))(k \<mapsto> x)"
    and 2: "nodes G1 = nodes G" "e2i G1 = e2i G"
    by simp_all
  have "\<forall>i. Suc k \<le> i \<and> i < Suc k + length V \<longrightarrow> map_of (out_edges G1) i = Some []"
    using Cons.prems(2) 1 by simp
  from Cons.IH [OF r this] have 3: "nodes G' = nodes G1" "e2i G' = e2i G1"
    and 4: "\<And>i. map_of (out_edges G') i =
        (if Suc k \<le> i \<and> i < Suc k + length V then Some (V ! (i - Suc k))
         else map_of (out_edges G1) i)"
    by simp_all
  have "map_of (out_edges G') i =
        (if k \<le> i \<and> i < k + length (x # V) then Some ((x # V) ! (i - k))
         else map_of (out_edges G) i)" for i
  proof (cases "i = k")
    case True
    with 4 [of i] 1 show ?thesis by simp
  next
    case False
    with 4 [of i] 1 show ?thesis by (auto simp: nth_Cons' Suc_diff_le)
  qed
  with 2 3 show ?case by simp
qed

lemma operand_indices_Inr:
  "operand_indices d os = Inr js \<Longrightarrow> map Some js = map (map_of d) os"
  by (induction os arbitrary: js) (auto split: option.splits sum.splits)

lemma compute_deps_Inr:
  "compute_deps d ns = Inr V \<Longrightarrow>
     length V = length ns \<and> (\<forall>k<length ns. node_deps d (expression (snd (ns ! k))) = Inr (V ! k))"
proof (induction ns arbitrary: V)
  case Nil
  then show ?case by simp
next
  case (Cons iv ns)
  then obtain deps V' where 1: "node_deps d (expression (snd iv)) = Inr deps"
    and 2: "compute_deps d ns = Inr V'" and 3: "V = deps # V'"
    by (auto split: sum.splits)
  from Cons.IH [OF 2] 1 3 show ?case by (auto simp: nth_Cons')
qed

lemma map_of_const: "map_of (map (\<lambda>p. (f p, c)) xs) k = (if k \<in> f ` set xs then Some c else None)"
  by (induction xs) auto

lemma compute_graph_edges_Inr:
  assumes vals: "map snd d = [0..<length d]"
    and ce: "compute_graph_edges (vertices_graph d) = Inr G"
  shows "nodes G = nodes (vertices_graph d) \<and> e2i G = d \<and>
     (\<forall>(e, i) \<in> set d. \<exists>outs. map_of (out_edges G) i = Some outs \<and> node_deps d e = Inr outs)"
proof -
  let ?G0 = "vertices_graph d"
  from ce obtain V where cd: "compute_deps d (nodes ?G0) = Inr V"
    and ae: "add_all_edges ?G0 (enumerate 0 V) = Inr G"
    by (auto simp: compute_graph_edges_def vertices_graph_def split: sum.splits)
  from compute_deps_Inr [OF cd] have len: "length V = length d"
    and deps: "\<And>k. k < length d \<Longrightarrow> node_deps d (fst (d ! k)) = Inr (V ! k)"
    by (simp_all add: vertices_graph_def)
  have "snd ` set d = {0..<length d}"
    using vals by (metis set_map set_upt)
  then have "\<forall>i. 0 \<le> i \<and> i < 0 + length V \<longrightarrow> map_of (out_edges ?G0) i = Some []"
    using len by (simp add: vertices_graph_def map_of_const)
  from add_all_edges_Inr [OF ae this]
  have n: "nodes G = nodes ?G0" and e: "e2i G = e2i ?G0"
    and o: "\<And>i. i < length d \<Longrightarrow> map_of (out_edges G) i = Some (V ! i)"
    using len by simp_all
  have "\<exists>outs. map_of (out_edges G) i = Some outs \<and> node_deps d e = Inr outs"
    if "(e, i) \<in> set d" for e i
  proof -
    from that obtain k where k: "k < length d" "d ! k = (e, i)"
      by (auto simp: in_set_conv_nth)
    then have "map snd d ! k = i" by simp
    with vals k(1) have "i = k" by simp
    with k o [of k] deps [of k] show ?thesis by simp
  qed
  with n e show ?thesis by (auto simp: vertices_graph_def)
qed

lemma build_scalar_graph_Inr:
  assumes "build_scalar_graph C expr = Inr G"
  obtains se where "\<not> isinstance se [''Label'']"
    and "nodes G = nodes (vertices_graph (count_nodes_with_unique_post_traversal se [] True))"
    and "e2i G = count_nodes_with_unique_post_traversal se [] True"
    and "\<forall>(e, i) \<in> set (e2i G). \<exists>outs. map_of (out_edges G) i = Some outs \<and>
           node_deps (e2i G) e = Inr outs"
proof -
  from assms obtain se G2 where b: "build_graph_vertices se [] True = Inr G2"
    and c: "compute_graph_edges G2 = Inr G"
    by (auto simp: build_scalar_graph_def split: sum.splits option.splits)
  let ?d = "count_nodes_with_unique_post_traversal se [] True"
  from build_graph_vertices_Inr [OF b] have ns: "\<not> isinstance se [''Label'']"
    and G2: "G2 = vertices_graph ?d" by simp_all
  have vals: "map snd ?d = [0..<length ?d]"
    using count_nodes_ok [of "[]" True se] by (simp add: dict_ok_def)
  from c have c': "compute_graph_edges (vertices_graph ?d) = Inr G"
    unfolding G2 .
  note r = compute_graph_edges_Inr [OF vals c']
  from r have 1: "nodes G = nodes (vertices_graph ?d)" by (rule conjunct1)
  from r have 2: "e2i G = ?d" by blast
  from r have "\<forall>(e, i) \<in> set ?d. \<exists>outs. map_of (out_edges G) i = Some outs \<and>
      node_deps ?d e = Inr outs"
    by blast
  then have 3: "\<forall>(e, i) \<in> set (e2i G). \<exists>outs. map_of (out_edges G) i = Some outs \<and>
      node_deps (e2i G) e = Inr outs"
    unfolding 2 .
  from that [OF ns 1 2 3] show thesis .
qed


lemma vertices_graph_nodes:
  assumes "(i, v) \<in> set (nodes (vertices_graph d))"
  shows "(expression v, i) \<in> set d"
  using assms by (auto simp: vertices_graph_def)

lemma node_unique:
  assumes "dict_ok skip stm d" and "map_of d e = Some j" and "(k, v) \<in> set (nodes (vertices_graph d))"
  shows "expression v = e \<longleftrightarrow> k = j"
proof -
  from assms(1) have dk: "distinct (map fst d)" and dv: "distinct (map snd d)"
    by (simp_all add: dict_ok_def)
  from assms(2) have ej: "(e, j) \<in> set d" by (rule map_of_SomeD)
  from vertices_graph_nodes [OF assms(3)] have vk: "(expression v, k) \<in> set d" .
  show ?thesis
  proof
    assume "expression v = e"
    with vk dk assms(2) show "k = j" by simp
  next
    assume "k = j"
    with vk have "(expression v, j) \<in> set d" by simp
    from distinct_snd_unique [OF dv this ej] show "expression v = e" .
  qed
qed

lemma ex_sum_count_final:
  "count_nodes_with_unique_post_traversal ex_sum [] True =
     [(ex_a, 0), (ex_b, 1), (ex_ab, 2), (ex_sum, 3)]"
  by (simp add: count_nodes_with_unique_post_traversal_def getops_def dict_in_def isinstance_def
      ex_sum_def ex_ab_def ex_a_def ex_b_def)

lemma ex_sum_count_first:
  "count_nodes_with_unique_post_traversal ex_sum [''MultiIndex''] False =
     [(ex_a, 0), (ex_b, 1), (ex_ab, 2), (ex_sum, 3)]"
  by (simp add: count_nodes_with_unique_post_traversal_def getops_def dict_in_def isinstance_def
      ex_sum_def ex_ab_def ex_a_def ex_b_def)

lemma ex_sum_rebuilt:
  "rebuild_with_scalar_subexpressions ex_collab
     (vertices_graph [(ex_a, 0), (ex_b, 1), (ex_ab, 2), (ex_sum, 3)]) = Inr (Some ex_sum)"
  by (simp add: rebuild_with_scalar_subexpressions_def vertices_graph_def ex_collab_def
      rebuild_node_def node_scalars_def isinstance_def ex_sum_def ex_ab_def ex_a_def ex_b_def)

lemma ex_sum_edges:
  "compute_graph_edges (vertices_graph [(ex_a, 0), (ex_b, 1), (ex_ab, 2), (ex_sum, 3)]) =
     Inr ex_final_graph"
  by (simp add: compute_graph_edges_def vertices_graph_def node_deps_def add_edge_def dict_in_def
      ex_final_graph_def ex_sum_def ex_ab_def ex_a_def ex_b_def)

lemma ex_final_graph_built: "build_scalar_graph ex_collab ex_sum = Inr ex_final_graph"
proof -
  have a: "\<not> isinstance ex_sum [''Label'', ''MultiIndex'']" and b: "\<not> isinstance ex_sum [''Label'']"
    by (simp_all add: isinstance_def ex_sum_def)
  have 1: "build_graph_vertices ex_sum [''MultiIndex''] False =
      Inr (vertices_graph [(ex_a, 0), (ex_b, 1), (ex_ab, 2), (ex_sum, 3)])"
    using build_graph_vertices_eq [OF a, of False] unfolding ex_sum_count_first .
  have 2: "build_graph_vertices ex_sum [] True =
      Inr (vertices_graph [(ex_a, 0), (ex_b, 1), (ex_ab, 2), (ex_sum, 3)])"
    using build_graph_vertices_eq [OF b, of True] unfolding ex_sum_count_final .
  show ?thesis
    unfolding build_scalar_graph_def
    by (simp only: 1 2 ex_sum_rebuilt ex_sum_edges sum.case option.case)
qed


lemma final_graph_node:
  assumes "build_scalar_graph C expr = Inr G" and "(i, v) \<in> set (nodes G)"
  obtains outs where "(expression v, i) \<in> set (e2i G)"
    and "map_of (out_edges G) i = Some outs"
    and "node_deps (e2i G) (expression v) = Inr outs"
proof -
  from assms(1) obtain se where
    n: "nodes G = nodes (vertices_graph (count_nodes_with_unique_post_traversal se [] True))"
    and e: "e2i G = count_nodes_with_unique_post_traversal se [] True"
    and o: "\<forall>(e, i) \<in> set (e2i G). \<exists>outs. map_of (out_edges G) i = Some outs \<and>
           node_deps (e2i G) e = Inr outs"
    by (rule build_scalar_graph_Inr)
  from assms(2) have m: "(expression v, i) \<in> set (e2i G)"
    unfolding n e by (rule vertices_graph_nodes)
  with o obtain outs where "map_of (out_edges G) i = Some outs"
    and "node_deps (e2i G) (expression v) = Inr outs"
    by blast
  with m that show thesis by blast
qed

lemma node_deps_getops:
  assumes "node_deps d e = Inr outs"
  shows "map Some outs = map (map_of d) (getops True e)"
proof (cases "ufl_is_terminal e \<or> (ufl_is_terminal_modifier e \<and> ufl_free_indices e = [])")
  case True
  with assms show ?thesis by (auto simp: node_deps_def getops_def)
next
  case False
  with assms have "operand_indices d (ufl_operands e) = Inr outs"
    by (simp add: node_deps_def)
  from operand_indices_Inr [OF this] False show ?thesis by (auto simp: getops_def)
qed

text \<open>
  Claim C7.  In the graph that \<^verbatim>\<open>build_scalar_graph\<close> returns, every node has an
  out-edge list; for a terminal or a terminal modifier without free indices it
  is empty, and for every other node it is, position by position, the list of
  the indices that \<^verbatim>\<open>e2i\<close> gives the operands of the node's expression, so a
  repeated operand gives a repeated edge.
\<close>

theorem final_graph_out_edges:
  assumes "build_scalar_graph C expr = Inr G"
  shows "\<forall>(i, v) \<in> set (nodes G). \<exists>outs. map_of (out_edges G) i = Some outs \<and>
     (if ufl_is_terminal (expression v) \<or>
         (ufl_is_terminal_modifier (expression v) \<and> ufl_free_indices (expression v) = [])
      then outs = []
      else map Some outs = map (map_of (e2i G)) (ufl_operands (expression v)))"
proof -
  have "\<exists>outs. map_of (out_edges G) i = Some outs \<and>
     (if ufl_is_terminal (expression v) \<or>
         (ufl_is_terminal_modifier (expression v) \<and> ufl_free_indices (expression v) = [])
      then outs = []
      else map Some outs = map (map_of (e2i G)) (ufl_operands (expression v)))"
    if "(i, v) \<in> set (nodes G)" for i v
  proof -
    from assms that obtain outs where o: "map_of (out_edges G) i = Some outs"
      and d: "node_deps (e2i G) (expression v) = Inr outs"
      by (rule final_graph_node)
    from node_deps_getops [OF d] o show ?thesis
      by (auto simp: getops_def)
  qed
  then show ?thesis by blast
qed

theorem final_graph_out_edges_witness:
  "build_scalar_graph ex_collab ex_sum = Inr ex_final_graph \<and>
   (3, \<lparr>expression = ex_sum, target = True\<rparr>) \<in> set (nodes ex_final_graph) \<and>
   ufl_operands ex_sum = [ex_ab, ex_ab] \<and>
   (\<exists>outs. map_of (out_edges ex_final_graph) 3 = Some outs \<and>
      map Some outs = map (map_of (e2i ex_final_graph)) [ex_ab, ex_ab]) \<and>
   map_of (out_edges ex_final_graph) 3 = Some [2, 2] \<and>
   map_of (out_edges ex_final_graph) 0 = Some []"
proof -
  have m: "(3, \<lparr>expression = ex_sum, target = True\<rparr>) \<in> set (nodes ex_final_graph)"
    by (simp add: ex_final_graph_def)
  have t: "\<not> (ufl_is_terminal ex_sum \<or> (ufl_is_terminal_modifier ex_sum \<and> ufl_free_indices ex_sum = []))"
    and u: "ufl_operands ex_sum = [ex_ab, ex_ab]"
    by (simp_all add: ex_sum_def)
  from final_graph_out_edges [OF ex_final_graph_built] m
  have "\<exists>outs. map_of (out_edges ex_final_graph) 3 = Some outs \<and>
     (if ufl_is_terminal ex_sum \<or> (ufl_is_terminal_modifier ex_sum \<and> ufl_free_indices ex_sum = [])
      then outs = []
      else map Some outs = map (map_of (e2i ex_final_graph)) (ufl_operands ex_sum))"
    by fastforce
  with t u have "\<exists>outs. map_of (out_edges ex_final_graph) 3 = Some outs \<and>
      map Some outs = map (map_of (e2i ex_final_graph)) [ex_ab, ex_ab]"
    by auto
  moreover have "map_of (out_edges ex_final_graph) 3 = Some [2, 2]"
    and "map_of (out_edges ex_final_graph) 0 = Some []"
    by (simp_all add: ex_final_graph_def)
  ultimately show ?thesis using ex_final_graph_built m u by blast
qed



text \<open>
  Claim C2, as amended.  Every expression that the traversal can reach from the
  root (through the operands \<^verbatim>\<open>getops\<close> returns) and that is not of a skipped
  class is a key of the enumerator's dictionary, with one index however many
  paths lead to it, and different keys have different indices; in the graph of
  \<^verbatim>\<open>build_graph_vertices\<close> an expression with index \<open>j\<close> is the expression of
  node \<open>j\<close> and of no other node; in the graph \<^verbatim>\<open>build_scalar_graph\<close> returns,
  an expression that is an operand of two nodes, neither a terminal nor a
  terminal modifier without free indices, has one index, that index is in the
  out-edge lists of both nodes, and it is the only node with that expression.
  For \<open>a*b + a*b\<close> the enumerator numbers \<open>a\<close>, \<open>b\<close>, the product once, and the sum.
\<close>

theorem shared_operand_single_node:
  "(\<forall>e \<in> set (subexprs stm expr). \<not> isinstance e (''Label'' # skip) \<longrightarrow>
      (\<exists>j. map_of (count_nodes_with_unique_post_traversal expr skip stm) e = Some j)) \<and>
   distinct (map fst (count_nodes_with_unique_post_traversal expr skip stm)) \<and>
   distinct (map snd (count_nodes_with_unique_post_traversal expr skip stm)) \<and>
   (\<forall>G. build_graph_vertices expr skip stm = Inr G \<longrightarrow>
      (\<forall>e j. map_of (e2i G) e = Some j \<longrightarrow>
         (\<exists>v. map_of (nodes G) j = Some v \<and> expression v = e) \<and>
         (\<forall>(k, v) \<in> set (nodes G). expression v = e \<longleftrightarrow> k = j))) \<and>
   (\<forall>G. build_scalar_graph C expr = Inr G \<longrightarrow>
      (\<forall>(i1, v1) \<in> set (nodes G). \<forall>(i2, v2) \<in> set (nodes G). \<forall>o'.
         o' \<in> set (getops True (expression v1)) \<and> o' \<in> set (getops True (expression v2)) \<longrightarrow>
         (\<exists>j outs1 outs2. map_of (e2i G) o' = Some j \<and>
            map_of (out_edges G) i1 = Some outs1 \<and> j \<in> set outs1 \<and>
            map_of (out_edges G) i2 = Some outs2 \<and> j \<in> set outs2 \<and>
            (\<forall>(k, v) \<in> set (nodes G). expression v = o' \<longleftrightarrow> k = j)))) \<and>
   count_nodes_with_unique_post_traversal ex_sum [] False =
     [(ex_a, 0), (ex_b, 1), (ex_ab, 2), (ex_sum, 3)]"
proof (intro conjI allI impI)
  let ?d = "count_nodes_with_unique_post_traversal expr skip stm"
  have ok: "dict_ok skip stm ?d" by (rule count_nodes_ok)
  then show "distinct (map fst ?d)" and "distinct (map snd ?d)"
    by (simp_all add: dict_ok_def)
  show "\<forall>e \<in> set (subexprs stm expr). \<not> isinstance e (''Label'' # skip) \<longrightarrow>
      (\<exists>j. map_of ?d e = Some j)"
    using count_nodes_covers by blast
  show "count_nodes_with_unique_post_traversal ex_sum [] False =
     [(ex_a, 0), (ex_b, 1), (ex_ab, 2), (ex_sum, 3)]"
    by (rule ex_sum_count)
  {
    fix G e j
    assume b: "build_graph_vertices expr skip stm = Inr G" and m: "map_of (e2i G) e = Some j"
    from build_graph_vertices_Inr [OF b] have G: "G = vertices_graph ?d" by simp
    then have e: "e2i G = ?d" by (simp add: vertices_graph_def)
    from m have "(e, j) \<in> set ?d" unfolding e by (rule map_of_SomeD)
    then have "(j, \<lparr>expression = e, target = (j = length ?d - 1)\<rparr>) \<in> set (nodes G)"
      unfolding G by (force simp: vertices_graph_def)
    moreover have "distinct (map fst (nodes G))"
      unfolding G using ok by (simp add: vertices_graph_def comp_def dict_ok_def)
    ultimately have "map_of (nodes G) j = Some \<lparr>expression = e, target = (j = length ?d - 1)\<rparr>"
      by simp
    then show "\<exists>v. map_of (nodes G) j = Some v \<and> expression v = e" by simp
    show "\<forall>(k, v) \<in> set (nodes G). expression v = e \<longleftrightarrow> k = j"
      using node_unique [OF ok m [unfolded e]] unfolding G by blast
  }
  {
    fix G
    assume b: "build_scalar_graph C expr = Inr G"
    from b obtain se where
      n: "nodes G = nodes (vertices_graph (count_nodes_with_unique_post_traversal se [] True))"
      and e: "e2i G = count_nodes_with_unique_post_traversal se [] True"
      by (rule build_scalar_graph_Inr)
    have ok2: "dict_ok [] True (e2i G)" unfolding e by (rule count_nodes_ok)
    have "\<exists>j outs1 outs2. map_of (e2i G) o' = Some j \<and>
            map_of (out_edges G) i1 = Some outs1 \<and> j \<in> set outs1 \<and>
            map_of (out_edges G) i2 = Some outs2 \<and> j \<in> set outs2 \<and>
            (\<forall>(k, v) \<in> set (nodes G). expression v = o' \<longleftrightarrow> k = j)"
      if n1: "(i1, v1) \<in> set (nodes G)" and n2: "(i2, v2) \<in> set (nodes G)"
        and o1: "o' \<in> set (getops True (expression v1))"
        and o2: "o' \<in> set (getops True (expression v2))" for i1 v1 i2 v2 o'
    proof -
      from b n1 obtain outs1 where s1: "map_of (out_edges G) i1 = Some outs1"
        and d1: "node_deps (e2i G) (expression v1) = Inr outs1"
        by (rule final_graph_node)
      from b n2 obtain outs2 where s2: "map_of (out_edges G) i2 = Some outs2"
        and d2: "node_deps (e2i G) (expression v2) = Inr outs2"
        by (rule final_graph_node)
      from o1 have "map_of (e2i G) o' \<in> set (map Some outs1)"
        unfolding node_deps_getops [OF d1] by simp
      then obtain j where j: "map_of (e2i G) o' = Some j" "j \<in> set outs1" by auto
      from o2 have "map_of (e2i G) o' \<in> set (map Some outs2)"
        unfolding node_deps_getops [OF d2] by simp
      with j(1) have j2: "j \<in> set outs2" by auto
      have "\<forall>(k, v) \<in> set (nodes G). expression v = o' \<longleftrightarrow> k = j"
        using node_unique [OF ok2 j(1)] unfolding n e by blast
      with j j2 s1 s2 show ?thesis by blast
    qed
    then show "\<forall>(i1, v1) \<in> set (nodes G). \<forall>(i2, v2) \<in> set (nodes G). \<forall>o'.
         o' \<in> set (getops True (expression v1)) \<and> o' \<in> set (getops True (expression v2)) \<longrightarrow>
         (\<exists>j outs1 outs2. map_of (e2i G) o' = Some j \<and>
            map_of (out_edges G) i1 = Some outs1 \<and> j \<in> set outs1 \<and>
            map_of (out_edges G) i2 = Some outs2 \<and> j \<in> set outs2 \<and>
            (\<forall>(k, v) \<in> set (nodes G). expression v = o' \<longleftrightarrow> k = j))"
      by blast
  }
qed


lemma ex_shared_count:
  "count_nodes_with_unique_post_traversal ex_shared [] True =
     [(ex_a, 0), (ex_b, 1), (ex_ab, 2), (ex_shared, 3)]"
  "count_nodes_with_unique_post_traversal ex_shared [''MultiIndex''] False =
     [(ex_a, 0), (ex_b, 1), (ex_ab, 2), (ex_shared, 3)]"
  by (simp_all add: count_nodes_with_unique_post_traversal_def getops_def dict_in_def
      isinstance_def ex_shared_def ex_ab_def ex_a_def ex_b_def)

lemma ex_shared_rebuilt:
  "rebuild_with_scalar_subexpressions ex_collab
     (vertices_graph [(ex_a, 0), (ex_b, 1), (ex_ab, 2), (ex_shared, 3)]) = Inr (Some ex_shared)"
  by (simp add: rebuild_with_scalar_subexpressions_def vertices_graph_def ex_collab_def
      rebuild_node_def node_scalars_def isinstance_def ex_shared_def ex_ab_def ex_a_def ex_b_def)

lemma ex_shared_edges:
  "compute_graph_edges (vertices_graph [(ex_a, 0), (ex_b, 1), (ex_ab, 2), (ex_shared, 3)]) =
     Inr ex_shared_graph"
  by (simp add: compute_graph_edges_def vertices_graph_def node_deps_def add_edge_def dict_in_def
      ex_shared_graph_def ex_shared_def ex_ab_def ex_a_def ex_b_def)

lemma ex_shared_vertices:
  "build_graph_vertices ex_shared [] True =
      Inr (vertices_graph [(ex_a, 0), (ex_b, 1), (ex_ab, 2), (ex_shared, 3)])"
  "build_graph_vertices ex_shared [''MultiIndex''] False =
      Inr (vertices_graph [(ex_a, 0), (ex_b, 1), (ex_ab, 2), (ex_shared, 3)])"
proof -
  have a: "\<not> isinstance ex_shared [''Label'', ''MultiIndex'']"
    and b: "\<not> isinstance ex_shared [''Label'']"
    by (simp_all add: isinstance_def ex_shared_def)
  show "build_graph_vertices ex_shared [] True =
      Inr (vertices_graph [(ex_a, 0), (ex_b, 1), (ex_ab, 2), (ex_shared, 3)])"
    using build_graph_vertices_eq [OF b, of True] unfolding ex_shared_count .
  show "build_graph_vertices ex_shared [''MultiIndex''] False =
      Inr (vertices_graph [(ex_a, 0), (ex_b, 1), (ex_ab, 2), (ex_shared, 3)])"
    using build_graph_vertices_eq [OF a, of False] unfolding ex_shared_count .
qed

lemma ex_shared_graph_built: "build_scalar_graph ex_collab ex_shared = Inr ex_shared_graph"
  unfolding build_scalar_graph_def
  by (simp only: ex_shared_vertices ex_shared_rebuilt ex_shared_edges sum.case option.case)

theorem shared_operand_single_node_witness:
  "build_scalar_graph ex_collab ex_shared = Inr ex_shared_graph \<and>
   (2, \<lparr>expression = ex_ab, target = False\<rparr>) \<in> set (nodes ex_shared_graph) \<and>
   (3, \<lparr>expression = ex_shared, target = True\<rparr>) \<in> set (nodes ex_shared_graph) \<and>
   ex_a \<in> set (getops True ex_ab) \<and> ex_a \<in> set (getops True ex_shared) \<and>
   map_of (e2i ex_shared_graph) ex_a = Some 0 \<and>
   map_of (out_edges ex_shared_graph) 2 = Some [0, 1] \<and>
   map_of (out_edges ex_shared_graph) 3 = Some [2, 0] \<and>
   (\<exists>j outs1 outs2. map_of (e2i ex_shared_graph) ex_a = Some j \<and>
      map_of (out_edges ex_shared_graph) 2 = Some outs1 \<and> j \<in> set outs1 \<and>
      map_of (out_edges ex_shared_graph) 3 = Some outs2 \<and> j \<in> set outs2) \<and>
   build_graph_vertices ex_shared [] True =
     Inr (vertices_graph [(ex_a, 0), (ex_b, 1), (ex_ab, 2), (ex_shared, 3)]) \<and>
   map_of (e2i (vertices_graph [(ex_a, 0), (ex_b, 1), (ex_ab, 2), (ex_shared, 3)])) ex_a = Some 0 \<and>
   (\<exists>v. map_of (nodes (vertices_graph [(ex_a, 0), (ex_b, 1), (ex_ab, 2), (ex_shared, 3)])) 0 =
      Some v \<and> expression v = ex_a) \<and>
   ex_a \<in> set (subexprs True ex_shared) \<and> \<not> isinstance ex_a [''Label''] \<and>
   (\<exists>j. map_of (count_nodes_with_unique_post_traversal ex_shared [] True) ex_a = Some j)"
proof -
  let ?G = ex_shared_graph
  have "ex_a \<in> set (getops True ex_shared)"
    by (simp add: getops_def ex_shared_def)
  then have r: "ex_a \<in> set (subexprs True ex_shared)"
    using subexprs_self by (rule subexprs_operand)
  have ns: "\<not> isinstance ex_a (''Label'' # [])"
    by (simp add: isinstance_def ex_a_def)
  from shared_operand_single_node [where expr = ex_shared and skip = "[]" and stm = True
      and C = ex_collab] r ns
  have ix: "\<exists>j. map_of (count_nodes_with_unique_post_traversal ex_shared [] True) ex_a = Some j"
    by blast
  let ?V = "vertices_graph [(ex_a, 0), (ex_b, 1), (ex_ab, 2), (ex_shared, 3)]"
  have mv: "map_of (e2i ?V) ex_a = Some 0"
    by (simp add: vertices_graph_def)
  from shared_operand_single_node [where expr = ex_shared and skip = "[]" and stm = True
      and C = ex_collab] ex_shared_vertices(1) mv
  have nv: "\<exists>v. map_of (nodes ?V) 0 = Some v \<and> expression v = ex_a"
    by blast
  have n1: "(2, \<lparr>expression = ex_ab, target = False\<rparr>) \<in> set (nodes ?G)"
    and n2: "(3, \<lparr>expression = ex_shared, target = True\<rparr>) \<in> set (nodes ?G)"
    and m: "map_of (e2i ?G) ex_a = Some 0"
    and o2: "map_of (out_edges ?G) 2 = Some [0, 1]"
    and o3: "map_of (out_edges ?G) 3 = Some [2, 0]"
    by (simp_all add: ex_shared_graph_def ex_a_def ex_b_def ex_ab_def ex_shared_def)
  have g1: "ex_a \<in> set (getops True (expression \<lparr>expression = ex_ab, target = False\<rparr>))"
    and g2: "ex_a \<in> set (getops True (expression \<lparr>expression = ex_shared, target = True\<rparr>))"
    by (simp_all add: getops_def ex_ab_def ex_shared_def)
  from shared_operand_single_node [where expr = ex_shared and skip = "[]" and stm = True
      and C = ex_collab]
  have "\<forall>(i1, v1) \<in> set (nodes ?G). \<forall>(i2, v2) \<in> set (nodes ?G). \<forall>o'.
         o' \<in> set (getops True (expression v1)) \<and> o' \<in> set (getops True (expression v2)) \<longrightarrow>
         (\<exists>j outs1 outs2. map_of (e2i ?G) o' = Some j \<and>
            map_of (out_edges ?G) i1 = Some outs1 \<and> j \<in> set outs1 \<and>
            map_of (out_edges ?G) i2 = Some outs2 \<and> j \<in> set outs2 \<and>
            (\<forall>(k, v) \<in> set (nodes ?G). expression v = o' \<longleftrightarrow> k = j))"
    using ex_shared_graph_built by blast
  with n1 n2 g1 g2
  have "\<exists>j outs1 outs2. map_of (e2i ?G) ex_a = Some j \<and>
            map_of (out_edges ?G) 2 = Some outs1 \<and> j \<in> set outs1 \<and>
            map_of (out_edges ?G) 3 = Some outs2 \<and> j \<in> set outs2 \<and>
            (\<forall>(k, v) \<in> set (nodes ?G). expression v = ex_a \<longleftrightarrow> k = j)"
    by fast
  then have u: "\<exists>j outs1 outs2. map_of (e2i ?G) ex_a = Some j \<and>
            map_of (out_edges ?G) 2 = Some outs1 \<and> j \<in> set outs1 \<and>
            map_of (out_edges ?G) 3 = Some outs2 \<and> j \<in> set outs2"
    by blast
  from g1 g2 have "ex_a \<in> set (getops True ex_ab)" "ex_a \<in> set (getops True ex_shared)"
    by simp_all
  with ex_shared_graph_built n1 n2 m o2 o3 u ex_shared_vertices(1) mv nv r ns ix show ?thesis
    by blast
qed

text \<open>
  The claim as stated fails for an expression that is reached only below
  terminal modifiers: in \<open>a('+') / a('-')\<close> the coefficient \<open>a\<close> is the operand of
  both restrictions, but the final enumeration does not descend into them, so
  \<open>a\<close> has no index and no node in the final graph, and both restrictions have
  empty out-edge lists.
\<close>

lemma ex_div_count:
  "count_nodes_with_unique_post_traversal ex_div [''MultiIndex''] False =
     [(ex_a, 0), (ex_ra, 1), (ex_rm, 2), (ex_div, 3)]"
  "count_nodes_with_unique_post_traversal ex_div [] True =
     [(ex_ra, 0), (ex_rm, 1), (ex_div, 2)]"
  by (simp_all add: count_nodes_with_unique_post_traversal_def getops_def dict_in_def
      isinstance_def ex_div_def ex_ra_def ex_rm_def ex_a_def)

lemma ex_div_rebuilt:
  "rebuild_with_scalar_subexpressions ex_collab_mt
     (vertices_graph [(ex_a, 0), (ex_ra, 1), (ex_rm, 2), (ex_div, 3)]) = Inr (Some ex_div)"
  by (simp add: rebuild_with_scalar_subexpressions_def vertices_graph_def ex_collab_mt_def
      ex_collab_def rebuild_node_def node_scalars_def isinstance_def
      ex_div_def ex_ra_def ex_rm_def ex_a_def)

lemma ex_div_edges:
  "compute_graph_edges (vertices_graph [(ex_ra, 0), (ex_rm, 1), (ex_div, 2)]) = Inr ex_div_graph"
  by (simp add: compute_graph_edges_def vertices_graph_def node_deps_def add_edge_def dict_in_def
      ex_div_graph_def ex_div_def ex_ra_def ex_rm_def ex_a_def)

lemma ex_div_vertices:
  "build_graph_vertices ex_div [''MultiIndex''] False =
      Inr (vertices_graph [(ex_a, 0), (ex_ra, 1), (ex_rm, 2), (ex_div, 3)])"
  "build_graph_vertices ex_div [] True =
      Inr (vertices_graph [(ex_ra, 0), (ex_rm, 1), (ex_div, 2)])"
proof -
  have a: "\<not> isinstance ex_div [''Label'', ''MultiIndex'']"
    and b: "\<not> isinstance ex_div [''Label'']"
    by (simp_all add: isinstance_def ex_div_def)
  show "build_graph_vertices ex_div [''MultiIndex''] False =
      Inr (vertices_graph [(ex_a, 0), (ex_ra, 1), (ex_rm, 2), (ex_div, 3)])"
    using build_graph_vertices_eq [OF a, of False] unfolding ex_div_count .
  show "build_graph_vertices ex_div [] True =
      Inr (vertices_graph [(ex_ra, 0), (ex_rm, 1), (ex_div, 2)])"
    using build_graph_vertices_eq [OF b, of True] unfolding ex_div_count .
qed

lemma ex_div_graph_built: "build_scalar_graph ex_collab_mt ex_div = Inr ex_div_graph"
  unfolding build_scalar_graph_def
  by (simp only: ex_div_vertices ex_div_rebuilt ex_div_edges sum.case option.case)

theorem shared_operand_counterexample:
  "build_scalar_graph ex_collab_mt ex_div = Inr ex_div_graph \<and>
   map_of (nodes ex_div_graph) 0 = Some \<lparr>expression = ex_ra, target = False\<rparr> \<and>
   map_of (nodes ex_div_graph) 1 = Some \<lparr>expression = ex_rm, target = False\<rparr> \<and>
   ufl_operands ex_ra = [ex_a] \<and> ufl_operands ex_rm = [ex_a] \<and>
   \<not> isinstance ex_a [''Label''] \<and>
   map_of (e2i ex_div_graph) ex_a = None \<and>
   map_of (out_edges ex_div_graph) 0 = Some [] \<and>
   map_of (out_edges ex_div_graph) 1 = Some []"
  by (simp add: ex_div_graph_built)
    (simp add: ex_div_graph_def ex_div_def ex_ra_def ex_rm_def ex_a_def isinstance_def)

end
